theory Spec2Isabelle
  imports Main "HOL-Library.Sublist"
begin

section \<open>Dataset categories of deepdoctection (datasets/info.py)\<close>

text \<open>
  The development embeds \<^verbatim>\<open>_get_dict\<close>, the class \<^verbatim>\<open>DatasetCategories\<close> and
  \<^verbatim>\<open>get_merged_categories\<close> of \<^verbatim>\<open>src/deepdoctection/datasets/info.py\<close>.

  A Python \<^verbatim>\<open>dict\<close> keeps its keys in insertion order, and the code depends on that order
  (it iterates over dictionaries and turns key views into lists), so a dictionary is an
  association list: the keys in insertion order, each key at most once.
\<close>

subsection \<open>Python dictionaries\<close>

type_synonym ('k, 'v) dict = "('k \<times> 'v) list"

text \<open>\<^verbatim>\<open>d.get(k)\<close>: the value stored under \<open>k\<close>, or \<^verbatim>\<open>None\<close>.\<close>

definition dict_get :: "('k, 'v) dict \<Rightarrow> 'k \<Rightarrow> 'v option" where
  "dict_get d k = map_of d k"

text \<open>\<^verbatim>\<open>d.get(k, dflt)\<close>.\<close>

definition dict_get_default :: "('k, 'v) dict \<Rightarrow> 'k \<Rightarrow> 'v \<Rightarrow> 'v" where
  "dict_get_default d k dflt = (case dict_get d k of None \<Rightarrow> dflt | Some v \<Rightarrow> v)"

text \<open>\<^verbatim>\<open>d.keys()\<close>, and what iterating over \<open>d\<close> yields.\<close>

definition dict_keys :: "('k, 'v) dict \<Rightarrow> 'k list" where
  "dict_keys d = map fst d"

text \<open>
  \<^verbatim>\<open>d[k] = v\<close>: an existing key keeps its position and takes the new value, a new key is
  appended.
\<close>

fun dict_set :: "'k \<Rightarrow> 'v \<Rightarrow> ('k, 'v) dict \<Rightarrow> ('k, 'v) dict" where
  "dict_set k v [] = [(k, v)]"
| "dict_set k v ((k', v') # d) =
     (if k' = k then (k, v) # d else (k', v') # dict_set k v d)"

text \<open>The well-formed dictionaries: no key twice.\<close>

definition is_dict :: "('k, 'v) dict \<Rightarrow> bool" where
  "is_dict d = distinct (map fst d)"

subsection \<open>Exceptions\<close>

text \<open>
  \<open>AssertionError\<close>, \<open>KeyError\<close> and \<open>IndexError\<close> are the exceptions the code can raise.
  \<open>ConfigurationError\<close> and \<open>InvalidRequestError\<close> are the names the specification uses;
  no statement of the source raises them.
\<close>

datatype error = AssertionError | KeyError | IndexError | ConfigurationError | InvalidRequestError

subsection \<open>\<^verbatim>\<open>str\<close> of an integer and \<^verbatim>\<open>enumerate\<close>\<close>

definition digit_char :: "nat \<Rightarrow> char" where
  "digit_char d = char_of (48 + d)"

function str_nat :: "nat \<Rightarrow> string" where
  "str_nat n = (if n < 10 then [digit_char n] else str_nat (n div 10) @ [digit_char (n mod 10)])"
  by pat_completeness auto
termination
  by (relation "measure id") auto

declare str_nat.simps [simp del]

text \<open>\<^verbatim>\<open>str(k)\<close> for a Python integer: decimal digits, with a sign when negative.\<close>

definition str :: "int \<Rightarrow> string" where
  "str k = (if k < 0 then CHR ''-'' # str_nat (nat (- k)) else str_nat (nat k))"

text \<open>\<^verbatim>\<open>enumerate(l, start)\<close>.\<close>

fun enumerate_from :: "int \<Rightarrow> 'a list \<Rightarrow> (int \<times> 'a) list" where
  "enumerate_from k [] = []"
| "enumerate_from k (v # l) = (k, v) # enumerate_from (k + 1) l"

subsection \<open>\<^verbatim>\<open>_get_dict\<close>\<close>

text \<open>
  A dictionary comprehension inserts its pairs one after the other, so a repeated key
  keeps its first position and its last value.
\<close>

definition dict_of_pairs :: "('k \<times> 'v) list \<Rightarrow> ('k, 'v) dict" where
  "dict_of_pairs ps = foldl (\<lambda>d (k, v). dict_set k v d) [] ps"

definition get_dict :: "string list \<Rightarrow> bool \<Rightarrow> int \<Rightarrow> (string, string) dict" where
  "get_dict l name_as_key starts_with =
     (if name_as_key
      then dict_of_pairs (map (\<lambda>(k, v). (v, str k)) (enumerate_from starts_with l))
      else dict_of_pairs (map (\<lambda>(k, v). (str k, v)) (enumerate_from starts_with l)))"

subsection \<open>The class \<^verbatim>\<open>DatasetCategories\<close>\<close>

text \<open>
  The two dataclass fields and the three private attributes. The attribute
  \<^verbatim>\<open>_categories_filter_update\<close> exists only once it has been assigned (the code asks
  \<^verbatim>\<open>hasattr\<close>), so it is an option; \<^verbatim>\<open>_cat_to_sub_cat\<close> starts as \<^verbatim>\<open>None\<close>.
\<close>

record DatasetCategories =
  init_categories :: "string list"
  init_sub_categories :: "(string, (string, string list) dict) dict"
  categories_update :: "string list"
  cat_to_sub_cat :: "(string, string) dict option"
  categories_filter_update :: "string list option"

text \<open>
  The generated \<^verbatim>\<open>__init__\<close> followed by \<^verbatim>\<open>__post_init__\<close>. Neither inspects its
  arguments, and neither has a \<^verbatim>\<open>raise\<close>: the result is always a registry.
\<close>

definition new_DatasetCategories ::
  "string list \<Rightarrow> (string, (string, string list) dict) dict \<Rightarrow> error + DatasetCategories" where
  "new_DatasetCategories cats sub_cats =
     Inr \<lparr> init_categories = cats, init_sub_categories = sub_cats,
           categories_update = cats, cat_to_sub_cat = None,
           categories_filter_update = None \<rparr>"

text \<open>\<^verbatim>\<open>Union[Dict[str, str], List[str]]\<close>, the result type of \<^verbatim>\<open>get_categories\<close>.\<close>

datatype categories_view = AsDict "(string, string) dict" | AsList "string list"

text \<open>What a \<^verbatim>\<open>for\<close> loop or an \<^verbatim>\<open>in\<close> test sees of such a value: the elements of a list,
  the keys of a dictionary.\<close>

fun iter :: "categories_view \<Rightarrow> string list" where
  "iter (AsList l) = l"
| "iter (AsDict d) = dict_keys d"

text \<open>\<^verbatim>\<open>get_categories(as_dict, name_as_key, init, filtered)\<close>.\<close>

definition get_categories ::
  "DatasetCategories \<Rightarrow> bool \<Rightarrow> bool \<Rightarrow> bool \<Rightarrow> bool \<Rightarrow> categories_view" where
  "get_categories self as_dict name_as_key init filtered =
     (if init then
        (if as_dict then AsDict (get_dict (init_categories self) name_as_key 1)
         else AsList (init_categories self))
      else if filtered then
        (if as_dict then
           (case categories_filter_update self of
              Some fl \<Rightarrow> AsDict (get_dict fl name_as_key 1)
            | None \<Rightarrow> AsDict (get_dict (categories_update self) name_as_key 1))
         else
           (case categories_filter_update self of
              Some fl \<Rightarrow> AsList fl
            | None \<Rightarrow> AsList (categories_update self)))
      else if as_dict then AsDict (get_dict (categories_update self) name_as_key 1)
      else AsList (categories_update self))"

text \<open>\<^verbatim>\<open>Union[str, List[str]]\<close>, the argument type of the two methods below.\<close>

datatype str_or_list = Str string | Lst "string list"

fun as_list :: "str_or_list \<Rightarrow> string list" where
  "as_list (Str s) = [s]"
| "as_list (Lst l) = l"

text \<open>
  \<^verbatim>\<open>set_cat_to_sub_cat\<close>. The loop runs over the keys of
  \<^verbatim>\<open>get_categories(name_as_key=True)\<close>, a dictionary from names to indices, taken after
  \<^verbatim>\<open>_categories_update\<close> has been set back to \<^verbatim>\<open>init_categories\<close>.
\<close>

definition cat_or_sub_cat ::
  "(string, (string, string list) dict) dict \<Rightarrow> (string, string) dict \<Rightarrow> string \<Rightarrow> string list" where
  "cat_or_sub_cat sub_cats m cat =
     dict_get_default (dict_get_default sub_cats cat [(cat, [cat])])
       (dict_get_default m cat cat) [cat]"

definition set_cat_to_sub_cat ::
  "(string, string) dict \<Rightarrow> DatasetCategories \<Rightarrow> DatasetCategories" where
  "set_cat_to_sub_cat m self =
     (let self1 = self\<lparr>categories_update := init_categories self\<rparr>;
          categories = get_categories self1 True True False False;
          cats_or_sub_cats = map (cat_or_sub_cat (init_sub_categories self1) m) (iter categories);
          self2 = self1\<lparr>cat_to_sub_cat := Some m\<rparr>
      in self2\<lparr>categories_update := concat cats_or_sub_cats\<rparr>)"

text \<open>\<^verbatim>\<open>filter_categories\<close>.\<close>

definition filter_categories :: "str_or_list \<Rightarrow> DatasetCategories \<Rightarrow> DatasetCategories" where
  "filter_categories categories self =
     self\<lparr>categories_filter_update :=
            Some (filter (\<lambda>cat. cat \<in> set (as_list categories)) (categories_update self))\<rparr>"

definition is_cat_to_sub_cat :: "DatasetCategories \<Rightarrow> bool" where
  "is_cat_to_sub_cat self = (if cat_to_sub_cat self \<noteq> None then True else False)"

definition is_filtered :: "DatasetCategories \<Rightarrow> bool" where
  "is_filtered self = (if categories_filter_update self \<noteq> None then True else False)"

subsection \<open>\<^verbatim>\<open>get_sub_categories\<close>\<close>

text \<open>
  The innermost loop, \<^verbatim>\<open>for pos in possible_sub_cats\<close>: whenever a sub-category key of the
  category \<open>key\<close> equals the chosen \<open>val\<close>, the requested name \<open>cat\<close> itself is looked up
  in that category's sub-category dictionary (\<^verbatim>\<open>sub_cat_dict_key\<close> is the dictionary
  \<^verbatim>\<open>possible_sub_cats\<close>, fetched a second time under the same key).
\<close>

definition pos_loop ::
  "string \<Rightarrow> string \<Rightarrow> (string, string list) dict \<Rightarrow> (string, string list) dict
     \<Rightarrow> (string, string list) dict" where
  "pos_loop cat val possible_sub_cats sub_cat =
     foldl (\<lambda>sc pos.
              if pos = val then
                (case dict_get possible_sub_cats cat of
                   None \<Rightarrow> dict_set cat [] sc
                 | Some sub_cat_list \<Rightarrow> dict_set cat sub_cat_list sc)
              else sc)
       sub_cat (dict_keys possible_sub_cats)"

text \<open>
  \<^verbatim>\<open>for key, val in self._cat_to_sub_cat.items()\<close>; the subscript
  \<^verbatim>\<open>self.init_sub_categories[key]\<close> raises \<^verbatim>\<open>KeyError\<close> for an unknown key.
\<close>

fun items_loop ::
  "(string, (string, string list) dict) dict \<Rightarrow> string \<Rightarrow> (string, string) dict
     \<Rightarrow> (string, string list) dict \<Rightarrow> error + (string, string list) dict" where
  "items_loop sub_cats cat [] sub_cat = Inr sub_cat"
| "items_loop sub_cats cat ((key, val) # m) sub_cat =
     (case dict_get sub_cats key of
        None \<Rightarrow> Inl KeyError
      | Some possible_sub_cats \<Rightarrow>
          items_loop sub_cats cat m (pos_loop cat val possible_sub_cats sub_cat))"

text \<open>
  \<^verbatim>\<open>for cat in categories\<close>. The test \<^verbatim>\<open>if self._cat_to_sub_cat\<close> is Python truth: the
  attribute is neither \<^verbatim>\<open>None\<close> nor the empty dictionary.
\<close>

fun cat_loop ::
  "DatasetCategories \<Rightarrow> string list \<Rightarrow> (string, string list) dict
     \<Rightarrow> error + (string, string list) dict" where
  "cat_loop self [] sub_cat = Inr sub_cat"
| "cat_loop self (cat # cats) sub_cat =
     (if cat \<notin> set (iter (get_categories self False False False True)) then Inl AssertionError
      else
        (case dict_get (init_sub_categories self) cat of
           None \<Rightarrow>
             (case cat_to_sub_cat self of
                None \<Rightarrow> cat_loop self cats sub_cat
              | Some m \<Rightarrow>
                  if m = [] then cat_loop self cats sub_cat
                  else
                    (case items_loop (init_sub_categories self) cat m sub_cat of
                       Inl e \<Rightarrow> Inl e
                     | Inr sub_cat' \<Rightarrow> cat_loop self cats sub_cat'))
         | Some sub_cat_dict \<Rightarrow>
             cat_loop self cats (dict_set cat (dict_keys sub_cat_dict) sub_cat)))"

text \<open>The argument is \<^verbatim>\<open>None\<close>, one name, or a list of names.\<close>

definition get_sub_categories ::
  "DatasetCategories \<Rightarrow> str_or_list option \<Rightarrow> error + (string, string list) dict" where
  "get_sub_categories self categories =
     cat_loop self
       (case categories of
          Some c \<Rightarrow> as_list c
        | None \<Rightarrow> iter (get_categories self False False False True))
       []"

subsection \<open>\<^verbatim>\<open>get_merged_categories\<close>\<close>

text \<open>
  The function builds Python \<^verbatim>\<open>set\<close>s and turns them into lists or iterates over them.
  The language leaves the iteration order of a set open. A set is represented by the list
  of the elements put into it, and the order in which it is then traversed by a parameter
  \<open>lo\<close> of the model, about which only \<open>set_order\<close> is known: the traversal yields every
  element of the set, once.
\<close>

definition set_order :: "(string list \<Rightarrow> string list) \<Rightarrow> bool" where
  "set_order lo = (\<forall>xs. set (lo xs) = set xs \<and> distinct (lo xs))"

text \<open>\<^verbatim>\<open>set(s).intersection(*others)\<close>.\<close>

definition intersection :: "'a list \<Rightarrow> 'a list list \<Rightarrow> 'a list" where
  "intersection s others = filter (\<lambda>x. list_all (\<lambda>other. x \<in> set other) others) s"

text \<open>The subscript \<^verbatim>\<open>d[k]\<close>.\<close>

definition subscript :: "('k, 'v) dict \<Rightarrow> 'k \<Rightarrow> error + 'v" where
  "subscript d k = (case dict_get d k of None \<Rightarrow> Inl KeyError | Some v \<Rightarrow> Inr v)"

text \<open>A list comprehension whose element expression may raise.\<close>

fun collect :: "('a \<Rightarrow> error + 'b) \<Rightarrow> 'a list \<Rightarrow> error + 'b list" where
  "collect f [] = Inr []"
| "collect f (x # xs) =
     (case f x of
        Inl e \<Rightarrow> Inl e
      | Inr y \<Rightarrow> (case collect f xs of Inl e \<Rightarrow> Inl e | Inr ys \<Rightarrow> Inr (y # ys)))"

text \<open>A loop \<^verbatim>\<open>for k in ks: ...; d[k] = v\<close> whose body computes \<open>v\<close> from \<open>k\<close> and may raise.\<close>

fun build_dict :: "('k \<Rightarrow> error + 'v) \<Rightarrow> 'k list \<Rightarrow> ('k, 'v) dict \<Rightarrow> error + ('k, 'v) dict" where
  "build_dict f [] d = Inr d"
| "build_dict f (k # ks) d =
     (case f k of Inl e \<Rightarrow> Inl e | Inr v \<Rightarrow> build_dict f ks (dict_set k v d))"

text \<open>The first loop: the labels of all inputs, each at its first appearance.\<close>

definition merge_init_categories :: "DatasetCategories list \<Rightarrow> string list" where
  "merge_init_categories categories =
     foldl (\<lambda>acc cat.
              foldl (\<lambda>acc label. if label \<notin> set acc then acc @ [label] else acc)
                acc (init_categories cat))
       [] categories"

text \<open>The body of \<^verbatim>\<open>for sub_cat_key in intersect_sub_cat_per_key\<close>: the set \<^verbatim>\<open>val\<close> as a list.\<close>

definition merged_values ::
  "(string list \<Rightarrow> string list) \<Rightarrow> DatasetCategories list \<Rightarrow> string \<Rightarrow> string
     \<Rightarrow> error + string list" where
  "merged_values lo categories key sub_cat_key =
     (case collect (\<lambda>cat. case subscript (init_sub_categories cat) key of
                             Inl e \<Rightarrow> Inl e
                           | Inr d \<Rightarrow> subscript d sub_cat_key) categories of
        Inl e \<Rightarrow> Inl e
      | Inr vals \<Rightarrow> Inr (lo (concat vals)))"

text \<open>The body of \<^verbatim>\<open>for key in intersect_sub_cat_keys\<close>.\<close>

definition merged_sub_cat ::
  "(string list \<Rightarrow> string list) \<Rightarrow> DatasetCategories list \<Rightarrow> string
     \<Rightarrow> error + (string, string list) dict" where
  "merged_sub_cat lo categories key =
     (case collect (\<lambda>cat. subscript (init_sub_categories cat) key) categories of
        Inl e \<Rightarrow> Inl e
      | Inr sub_cat_per_key \<Rightarrow>
          (case sub_cat_per_key of
             [] \<Rightarrow> Inl IndexError
           | d0 # ds \<Rightarrow>
               build_dict (merged_values lo categories key)
                 (lo (intersection (dict_keys d0) (map dict_keys ds))) []))"

definition get_merged_categories ::
  "(string list \<Rightarrow> string list) \<Rightarrow> DatasetCategories list \<Rightarrow> error + DatasetCategories" where
  "get_merged_categories lo categories =
     (let init_cats = merge_init_categories categories in
      case categories of
        [] \<Rightarrow> Inl IndexError
      | c0 # rest \<Rightarrow>
          (case build_dict (merged_sub_cat lo categories)
                  (lo (intersection (dict_keys (init_sub_categories c0))
                         (map (\<lambda>cat. dict_keys (init_sub_categories cat)) rest))) [] of
             Inl e \<Rightarrow> Inl e
           | Inr intersect_init_sub_cat \<Rightarrow>
               (let cats_update =
                      lo (concat (map (\<lambda>cat. iter (get_categories cat False False False False))
                                    categories));
                    cats_filtered =
                      lo (concat (map (\<lambda>cat. iter (get_categories cat False False False True))
                                    categories))
                in case new_DatasetCategories init_cats intersect_init_sub_cat of
                     Inl e \<Rightarrow> Inl e
                   | Inr merged \<Rightarrow>
                       Inr (merged\<lparr>categories_update := cats_update,
                                   categories_filter_update := Some cats_filtered\<rparr>))))"

subsection \<open>Sequences of calls\<close>

text \<open>The two mutators as commands, and a registry after a sequence of them.\<close>

datatype call = Filter_categories str_or_list | Set_cat_to_sub_cat "(string, string) dict"

fun run_call :: "DatasetCategories \<Rightarrow> call \<Rightarrow> DatasetCategories" where
  "run_call self (Filter_categories x) = filter_categories x self"
| "run_call self (Set_cat_to_sub_cat m) = set_cat_to_sub_cat m self"

definition run_calls :: "DatasetCategories \<Rightarrow> call list \<Rightarrow> DatasetCategories" where
  "run_calls self calls = foldl run_call self calls"

section \<open>Notions of the specification\<close>

text \<open>
  The definitions of this section do not embed code. They give names to what the
  specification talks about, so that the properties below can be stated in its words.
\<close>

text \<open>A list without its repetitions, every element at the place of its first appearance.\<close>

definition first_appearance :: "'a list \<Rightarrow> 'a list" where
  "first_appearance xs = rev (remdups (rev xs))"

text \<open>
  The value list of sub-category \<open>sub_cat_key\<close> of category \<open>key\<close> in a registry (empty when
  there is none), and whether the registry defines that sub-category for that category.
\<close>

definition sub_cat_values :: "DatasetCategories \<Rightarrow> string \<Rightarrow> string \<Rightarrow> string list" where
  "sub_cat_values cat key sub_cat_key =
     (case dict_get (init_sub_categories cat) key of
        None \<Rightarrow> []
      | Some d \<Rightarrow> (case dict_get d sub_cat_key of None \<Rightarrow> [] | Some vs \<Rightarrow> vs))"

definition has_sub_cat :: "DatasetCategories \<Rightarrow> string \<Rightarrow> string \<Rightarrow> bool" where
  "has_sub_cat cat key sub_cat_key =
     (case dict_get (init_sub_categories cat) key of
        None \<Rightarrow> False
      | Some d \<Rightarrow> dict_get d sub_cat_key \<noteq> None)"

text \<open>The current category view: the filtered list if a filter has been set, else the
  current list.\<close>

definition current_view :: "DatasetCategories \<Rightarrow> string list" where
  "current_view self =
     (case categories_filter_update self of Some fl \<Rightarrow> fl | None \<Rightarrow> categories_update self)"

text \<open>
  The block that the specification gives a category in \<^verbatim>\<open>set_cat_to_sub_cat\<close>: the value list
  of the chosen sub-category if the category is listed in the mapping and has that
  sub-category, else the category alone. \<open>own_name_key\<close> holds when a category has a
  sub-category whose key is the category's own name.
\<close>

definition spec_block ::
  "(string, (string, string list) dict) dict \<Rightarrow> (string, string) dict \<Rightarrow> string \<Rightarrow> string list" where
  "spec_block sub_cats m cat =
     (case dict_get m cat of
        None \<Rightarrow> [cat]
      | Some sub_cat_key \<Rightarrow>
          (case dict_get sub_cats cat of
             None \<Rightarrow> [cat]
           | Some d \<Rightarrow> (case dict_get d sub_cat_key of None \<Rightarrow> [cat] | Some vs \<Rightarrow> vs)))"

definition own_name_key :: "(string, (string, string list) dict) dict \<Rightarrow> string \<Rightarrow> bool" where
  "own_name_key sub_cats cat =
     (case dict_get sub_cats cat of None \<Rightarrow> False | Some d \<Rightarrow> dict_get d cat \<noteq> None)"

text \<open>
  The pairs of a substitution mapping whose chosen sub-category key is one of the
  sub-category keys of the category they name.
\<close>

definition chosen_pairs ::
  "(string, (string, string list) dict) dict \<Rightarrow> (string, string) dict \<Rightarrow> (string \<times> string) list" where
  "chosen_pairs sub_cats m =
     filter (\<lambda>(key, val). case dict_get sub_cats key of
                             None \<Rightarrow> False
                           | Some d \<Rightarrow> val \<in> set (dict_keys d)) m"

text \<open>
  A substitution is defined when every category that the mapping lists has sub-categories in
  the registry (vacuously so when no mapping is set).
\<close>

definition substitution_defined :: "DatasetCategories \<Rightarrow> bool" where
  "substitution_defined self =
     (case cat_to_sub_cat self of
        None \<Rightarrow> True
      | Some m \<Rightarrow> list_all (\<lambda>key. dict_get (init_sub_categories self) key \<noteq> None) (dict_keys m))"

text \<open>
  The entry that the result of \<^verbatim>\<open>get_sub_categories\<close> has for a requested name: the
  sub-category keys of a name that has sub-categories of its own; else, under a substitution
  of which some pair chooses a sub-category key that its category has, the value list
  stored under the requested name in the category of the last such pair (empty if there is
  none); else no entry.
\<close>

definition expected_entry :: "DatasetCategories \<Rightarrow> string \<Rightarrow> string list option" where
  "expected_entry self c =
     (case dict_get (init_sub_categories self) c of
        Some d \<Rightarrow> Some (dict_keys d)
      | None \<Rightarrow>
          (case cat_to_sub_cat self of
             None \<Rightarrow> None
           | Some m \<Rightarrow>
               (case chosen_pairs (init_sub_categories self) m of
                  [] \<Rightarrow> None
                | p # ps \<Rightarrow> Some (sub_cat_values self (fst (last (p # ps))) c))))"

text \<open>
  The registry that \<^verbatim>\<open>get_merged_categories\<close> returns for a non-empty argument list, written
  without loops and error cases.
\<close>

definition merged_keys :: "(string list \<Rightarrow> string list) \<Rightarrow> DatasetCategories list \<Rightarrow> string list" where
  "merged_keys lo cs =
     lo (intersection (dict_keys (init_sub_categories (hd cs)))
           (map (\<lambda>cat. dict_keys (init_sub_categories cat)) (tl cs)))"

definition merged_sub_cat_keys :: "(string list \<Rightarrow> string list) \<Rightarrow> DatasetCategories list \<Rightarrow> string \<Rightarrow> string list" where
  "merged_sub_cat_keys lo cs key =
     lo (intersection (dict_keys (the (dict_get (init_sub_categories (hd cs)) key)))
           (map (\<lambda>cat. dict_keys (the (dict_get (init_sub_categories cat) key))) (tl cs)))"

definition merged_registry :: "(string list \<Rightarrow> string list) \<Rightarrow> DatasetCategories list \<Rightarrow> DatasetCategories" where
  "merged_registry lo cs =
     \<lparr> init_categories = first_appearance (concat (map init_categories cs)),
       init_sub_categories =
         map (\<lambda>key. (key, map (\<lambda>sk. (sk, lo (concat (map (\<lambda>cat. sub_cat_values cat key sk) cs))))
                             (merged_sub_cat_keys lo cs key)))
           (merged_keys lo cs),
       categories_update = lo (concat (map categories_update cs)),
       cat_to_sub_cat = None,
       categories_filter_update =
         Some (lo (concat (map (\<lambda>cat. iter (get_categories cat False False False True)) cs))) \<rparr>"

subsection \<open>Example registries\<close>

text \<open>The registries of the examples in the specification.\<close>

definition example_registry :: DatasetCategories where
  "example_registry =
     \<lparr> init_categories = [''cat1'', ''cat2''],
       init_sub_categories = [(''cat1'', [(''s'', [''a'', ''b''])])],
       categories_update = [''cat1'', ''cat2''], cat_to_sub_cat = None,
       categories_filter_update = None \<rparr>"

definition merge_example_A :: DatasetCategories where
  "merge_example_A =
     \<lparr> init_categories = [''cat1'', ''cat2''],
       init_sub_categories = [(''cat1'', [(''s'', [''x'', ''y''])])],
       categories_update = [''cat1'', ''cat2''], cat_to_sub_cat = None,
       categories_filter_update = None \<rparr>"

definition merge_example_B :: DatasetCategories where
  "merge_example_B =
     \<lparr> init_categories = [''cat2'', ''cat3''],
       init_sub_categories = [],
       categories_update = [''cat2'', ''cat3''], cat_to_sub_cat = None,
       categories_filter_update = None \<rparr>"

section \<open>Properties\<close>

subsection \<open>Dictionaries built from distinct keys\<close>

lemma dict_set_fresh: "k \<notin> fst ` set d \<Longrightarrow> dict_set k v d = d @ [(k, v)]"
  by (induction d) auto

lemma dict_of_pairs_acc:
  "distinct (map fst (acc @ ps)) \<Longrightarrow> foldl (\<lambda>d (k, v). dict_set k v d) acc ps = acc @ ps"
proof (induction ps arbitrary: acc)
  case Nil
  then show ?case by simp
next
  case (Cons p ps)
  obtain k v where p: "p = (k, v)" by (cases p)
  from Cons.prems have fresh: "k \<notin> fst ` set acc" by (auto simp: p)
  from Cons.prems have "distinct (map fst ((acc @ [(k, v)]) @ ps))" by (auto simp: p)
  from Cons.IH [OF this] show ?case by (simp add: p dict_set_fresh [OF fresh])
qed

lemma dict_of_pairs_distinct: "distinct (map fst ps) \<Longrightarrow> dict_of_pairs ps = ps"
  using dict_of_pairs_acc [of "[]" ps] by (simp add: dict_of_pairs_def)

lemma dict_set_overwrite: "dict_set k v (dict_set k w d) = dict_set k v d"
  by (induction d) auto

lemma dict_keys_dict_set:
  "dict_keys (dict_set k v d) = (if k \<in> set (dict_keys d) then dict_keys d else dict_keys d @ [k])"
  by (induction d) (force simp: dict_keys_def)+

lemma dict_get_keys: "dict_get d k \<noteq> None \<longleftrightarrow> k \<in> set (dict_keys d)"
  by (simp add: dict_get_def dict_keys_def map_of_eq_None_iff)

lemma dict_keys_iff: "k \<in> set (dict_keys d) \<longleftrightarrow> (\<exists>v. dict_get d k = Some v)"
  using dict_get_keys [of d k] by auto

lemma dict_get_map_keys:
  "dict_get (map (\<lambda>k. (k, g k)) ks) k = (if k \<in> set ks then Some (g k) else None)"
  by (induction ks) (auto simp: dict_get_def)

subsection \<open>Decimal numerals are injective\<close>

lemma str_examples: "str 1 = ''1'' \<and> str 2 = ''2'' \<and> str 10 = ''10'' \<and> str 123 = ''123''"
  by code_simp

lemma digit_char_inj: "a < 10 \<Longrightarrow> b < 10 \<Longrightarrow> digit_char a = digit_char b \<Longrightarrow> a = b"
  by (simp add: digit_char_def char_of_eq_iff take_bit_eq_mod)

lemma str_nat_nonempty: "str_nat n \<noteq> []"
  by (subst str_nat.simps) simp

lemma str_nat_inj: "str_nat a = str_nat b \<Longrightarrow> a = b"
proof (induction a arbitrary: b rule: str_nat.induct)
  case (1 a)
  show ?case
  proof (cases "a < 10")
    case True
    then have sa: "str_nat a = [digit_char a]" by (subst str_nat.simps) simp
    show ?thesis
    proof (cases "b < 10")
      case True
      then have "str_nat b = [digit_char b]" by (subst str_nat.simps) simp
      with sa "1.prems" have "digit_char a = digit_char b" by simp
      with \<open>a < 10\<close> \<open>b < 10\<close> show ?thesis by (rule digit_char_inj)
    next
      case False
      then have "str_nat b = str_nat (b div 10) @ [digit_char (b mod 10)]"
        by (subst str_nat.simps) simp
      with sa "1.prems" have "str_nat (b div 10) = []" by simp
      with str_nat_nonempty show ?thesis by blast
    qed
  next
    case False
    then have sa: "str_nat a = str_nat (a div 10) @ [digit_char (a mod 10)]"
      by (subst str_nat.simps) simp
    show ?thesis
    proof (cases "b < 10")
      case True
      then have "str_nat b = [digit_char b]" by (subst str_nat.simps) simp
      with sa "1.prems" have "str_nat (a div 10) = []" by simp
      with str_nat_nonempty show ?thesis by blast
    next
      case b: False
      then have "str_nat b = str_nat (b div 10) @ [digit_char (b mod 10)]"
        by (subst str_nat.simps) simp
      with sa "1.prems" have e: "str_nat (a div 10) = str_nat (b div 10)"
        and d: "digit_char (a mod 10) = digit_char (b mod 10)" by simp_all
      from "1.IH" [OF False e] have q: "a div 10 = b div 10" .
      from d have r: "a mod 10 = b mod 10" by (intro digit_char_inj) simp_all
      from q r show ?thesis by (metis div_mult_mod_eq)
    qed
  qed
qed

lemma str_inj_nonneg: "0 \<le> i \<Longrightarrow> 0 \<le> j \<Longrightarrow> str i = str j \<Longrightarrow> i = j"
  by (auto simp: str_def dest!: str_nat_inj)

lemma enumerate_from_eq:
  "enumerate_from k l = zip (map (\<lambda>i. k + int i) [0..<length l]) l"
proof (induction l arbitrary: k)
  case Nil
  then show ?case by simp
next
  case (Cons v l)
  have "[0..<Suc (length l)] = 0 # map Suc [0..<length l]"
    by (simp add: upt_conv_Cons map_Suc_upt del: upt_Suc)
  then show ?case by (simp add: Cons.IH [of "k + 1"] comp_def add.assoc del: upt_Suc)
qed

lemma get_dict_index_keys:
  "get_dict l False 1 = zip (map (\<lambda>i. str (int i)) [1..<Suc (length l)]) l"
proof -
  let ?ks = "map (\<lambda>i. str (1 + int i)) [0..<length l]"
  have e: "map (\<lambda>(k, v). (str k, v)) (enumerate_from 1 l) = zip ?ks l"
    by (simp add: enumerate_from_eq zip_map1 comp_def case_prod_unfold)
  have inj: "inj_on (\<lambda>i. str (1 + int i)) {0..<length l}"
  proof (rule inj_onI)
    fix i j :: nat
    assume "str (1 + int i) = str (1 + int j)"
    then have "1 + int i = 1 + int j" by (intro str_inj_nonneg) simp_all
    then show "i = j" by simp
  qed
  have "distinct ?ks" by (simp add: distinct_map inj del: upt_Suc)
  then have "distinct (map fst (zip ?ks l))" by (simp del: upt_Suc)
  from dict_of_pairs_distinct [OF this]
  have "get_dict l False 1 = zip ?ks l" by (simp add: get_dict_def e)
  also have "?ks = map (\<lambda>i. str (int i)) [1..<Suc (length l)]"
    by (simp add: map_Suc_upt [symmetric] comp_def del: upt_Suc) 
  finally show ?thesis .
qed

subsection \<open>First appearances\<close>

lemma remdups_drop_member: "x \<in> set ys \<Longrightarrow> remdups (xs @ x # ys) = remdups (xs @ ys)"
  by (induction xs) auto

lemma foldl_first_appearance:
  "distinct acc \<Longrightarrow>
   foldl (\<lambda>acc x. if x \<notin> set acc then acc @ [x] else acc) acc xs = first_appearance (acc @ xs)"
proof (induction xs arbitrary: acc)
  case Nil
  then show ?case by (simp add: first_appearance_def distinct_remdups_id)
next
  case (Cons x xs)
  show ?case
  proof (cases "x \<in> set acc")
    case True
    then have "remdups (rev xs @ x # rev acc) = remdups (rev xs @ rev acc)"
      by (simp add: remdups_drop_member)
    with True Cons show ?thesis by (simp add: first_appearance_def)
  next
    case False
    with Cons.prems have "distinct (acc @ [x])" by simp
    from Cons.IH [OF this] False show ?thesis by simp
  qed
qed

lemma foldl_foldl_concat:
  "foldl (\<lambda>acc c. foldl f acc (g c)) acc cs = foldl f acc (concat (map g cs))"
  by (induction cs arbitrary: acc) simp_all

lemma first_appearance_distinct: "distinct xs \<Longrightarrow> first_appearance xs = xs"
  by (simp add: first_appearance_def distinct_remdups_id)

lemma dict_keys_foldl_dict_set:
  "dict_keys (foldl (\<lambda>d (k, v). dict_set k v d) acc ps) =
   foldl (\<lambda>acc x. if x \<notin> set acc then acc @ [x] else acc) (dict_keys acc) (map fst ps)"
  by (induction ps arbitrary: acc) (auto simp: dict_keys_dict_set)

lemma dict_keys_dict_of_pairs: "dict_keys (dict_of_pairs ps) = first_appearance (map fst ps)"
  unfolding dict_of_pairs_def dict_keys_foldl_dict_set
  by (simp add: dict_keys_def foldl_first_appearance [of "[]", simplified])

lemma names_of_enumerate: "map (fst \<circ> (\<lambda>(k, v). (v, f k))) (enumerate_from n l) = l"
  by (induction l arbitrary: n) simp_all

lemma iter_get_dict_names: "iter (AsDict (get_dict l True n)) = first_appearance l"
  by (simp add: get_dict_def dict_keys_dict_of_pairs names_of_enumerate)

subsection \<open>The current view\<close>

text \<open>What \<^verbatim>\<open>get_categories(as_dict=False, filtered=True)\<close> returns is the current view.\<close>

lemma iter_filtered_view: "iter (get_categories self False False False True) = current_view self"
  by (simp add: get_categories_def current_view_def split: option.splits)

subsection \<open>The initial taxonomy is never changed\<close>

lemma init_categories_run_call [simp]: "init_categories (run_call r c) = init_categories r"
  by (cases c) (simp_all add: filter_categories_def set_cat_to_sub_cat_def Let_def)

lemma init_categories_run_calls [simp]: "init_categories (run_calls r calls) = init_categories r"
  unfolding run_calls_def by (induction calls arbitrary: r) simp_all

lemma init_sub_categories_run_call [simp]:
  "init_sub_categories (run_call r c) = init_sub_categories r"
  by (cases c) (simp_all add: filter_categories_def set_cat_to_sub_cat_def Let_def)

lemma init_sub_categories_run_calls [simp]:
  "init_sub_categories (run_calls r calls) = init_sub_categories r"
  unfolding run_calls_def by (induction calls arbitrary: r) simp_all

text \<open>
  Claim C3. After any sequence of \<^verbatim>\<open>filter_categories\<close> and \<^verbatim>\<open>set_cat_to_sub_cat\<close> calls on
  a registry with \<open>n\<close> initial categories, \<^verbatim>\<open>get_categories(as_dict=True, init=True)\<close> is the
  dictionary that maps the strings \<open>"1"\<close>, ..., \<open>"n"\<close>, in this order, to the initial categories
  in their original order, and \<^verbatim>\<open>get_categories(as_dict=False, init=True)\<close> is the list of
  initial categories itself; the flag \<^verbatim>\<open>filtered\<close> makes no difference.
\<close>

theorem get_categories_init_after_calls:
  "get_categories (run_calls r calls) True False True filtered =
     AsDict (zip (map (\<lambda>i. str (int i)) [1..<Suc (length (init_categories r))]) (init_categories r))
   \<and> get_categories (run_calls r calls) False name_as_key True filtered =
     AsList (init_categories r)"
  by (simp add: get_categories_def get_dict_index_keys del: upt_Suc)

subsection \<open>Filtering\<close>

text \<open>
  Claim C4. \<^verbatim>\<open>filter_categories\<close> called with one name \<open>s\<close> stores the elements of the current
  \<^verbatim>\<open>_categories_update\<close> equal to \<open>s\<close>, and called with a list \<open>l\<close> of names those that occur
  in \<open>l\<close>, in the order they have in \<^verbatim>\<open>_categories_update\<close>: a subsequence of it with
  requested names only. The current list, the initial categories, the sub-categories and
  the substitution are left as they were. A second call with the same argument changes
  nothing, and a call after another filter call overwrites what that one had stored.
\<close>

theorem filter_categories_subsequence:
  "categories_filter_update (filter_categories (Str s) r) =
     Some (filter (\<lambda>cat. cat = s) (categories_update r))
   \<and> categories_filter_update (filter_categories (Lst l) r) =
     Some (filter (\<lambda>cat. cat \<in> set l) (categories_update r))
   \<and> subseq (the (categories_filter_update (filter_categories X r))) (categories_update r)
   \<and> set (the (categories_filter_update (filter_categories (Str s) r))) \<subseteq> {s}
   \<and> set (the (categories_filter_update (filter_categories (Lst l) r))) \<subseteq> set l
   \<and> categories_update (filter_categories X r) = categories_update r
   \<and> init_categories (filter_categories X r) = init_categories r
   \<and> init_sub_categories (filter_categories X r) = init_sub_categories r
   \<and> cat_to_sub_cat (filter_categories X r) = cat_to_sub_cat r
   \<and> filter_categories X (filter_categories X r) = filter_categories X r
   \<and> filter_categories X (filter_categories Y r) = filter_categories X r"
  by (auto simp: filter_categories_def)

subsection \<open>Construction\<close>

text \<open>
  Claim C6, as the code has it. The constructor checks nothing: for every list of categories
  and every sub-category dictionary it returns a registry whose current list is the list
  of initial categories, with no substitution and no filter. It raises no error, whatever
  categories the sub-category dictionary names and however short its value lists are.
\<close>

theorem new_DatasetCategories_total:
  "new_DatasetCategories cats sub_cats =
     Inr \<lparr> init_categories = cats, init_sub_categories = sub_cats,
           categories_update = cats, cat_to_sub_cat = None,
           categories_filter_update = None \<rparr>
   \<and> new_DatasetCategories cats sub_cats \<noteq> Inl e"
  by (simp add: new_DatasetCategories_def)

text \<open>
  The claim as the specification words it fails: a sub-category dictionary that names the
  category \<open>cat2\<close>, absent from the categories, with an empty value list, is accepted.
\<close>

theorem new_DatasetCategories_no_ConfigurationError:
  "new_DatasetCategories [''cat1''] [(''cat2'', [(''s'', [])])] \<noteq> Inl ConfigurationError
   \<and> ''cat2'' \<notin> set [''cat1'']
   \<and> dict_get [(''cat2'', [(''s'', ([] :: string list))])] ''cat2'' = Some [(''s'', [])]"
  by (simp add: new_DatasetCategories_def dict_get_def)

subsection \<open>Substituting sub-categories for categories\<close>

text \<open>
  \<^verbatim>\<open>set_cat_to_sub_cat\<close> in closed form. The loop runs over the keys of a dictionary made from
  the initial categories, hence over their first appearances; nothing but the initial
  taxonomy and the mapping enters the result.
\<close>

lemma set_cat_to_sub_cat_eq:
  "set_cat_to_sub_cat m r =
     r\<lparr>categories_update :=
          concat (map (cat_or_sub_cat (init_sub_categories r) m) (first_appearance (init_categories r))),
       cat_to_sub_cat := Some m\<rparr>"
  unfolding set_cat_to_sub_cat_def Let_def
  by (simp add: get_categories_def iter_get_dict_names [simplified])

lemma set_cat_to_sub_cat_from_init:
  "categories_update (set_cat_to_sub_cat m (run_calls r calls)) = categories_update (set_cat_to_sub_cat m r)"
  by (simp add: set_cat_to_sub_cat_eq)

lemma cat_or_sub_cat_spec_block:
  "dict_get m cat \<noteq> None \<or> \<not> own_name_key sub_cats cat \<Longrightarrow>
   cat_or_sub_cat sub_cats m cat = spec_block sub_cats m cat"
  by (auto simp: cat_or_sub_cat_def spec_block_def own_name_key_def dict_get_default_def dict_get_def
           split: option.splits)

text \<open>
  Where no unlisted category has a sub-category named like itself, and no initial category
  is repeated, the new current list is the concatenation of the blocks of the
  specification, in the order of the initial categories.
\<close>

lemma categories_update_set_cat_to_sub_cat:
  assumes "distinct (init_categories r)"
    and "\<forall>cat \<in> set (init_categories r).
           dict_get m cat \<noteq> None \<or> \<not> own_name_key (init_sub_categories r) cat"
  shows "categories_update (set_cat_to_sub_cat m r) =
           concat (map (spec_block (init_sub_categories r) m) (init_categories r))"
    and "cat_to_sub_cat (set_cat_to_sub_cat m r) = Some m"
proof -
  have e: "map (cat_or_sub_cat (init_sub_categories r) m) (init_categories r) =
        map (spec_block (init_sub_categories r) m) (init_categories r)"
    using assms(2) by (intro map_cong refl cat_or_sub_cat_spec_block) blast
  show "categories_update (set_cat_to_sub_cat m r) =
           concat (map (spec_block (init_sub_categories r) m) (init_categories r))"
    by (simp add: set_cat_to_sub_cat_eq first_appearance_distinct [OF assms(1)] e)
  show "cat_to_sub_cat (set_cat_to_sub_cat m r) = Some m"
    by (simp add: set_cat_to_sub_cat_eq)
qed

text \<open>The example of the specification.\<close>

lemma set_cat_to_sub_cat_example:
  "categories_update (set_cat_to_sub_cat [(''cat1'', ''s'')]
     \<lparr> init_categories = [''cat1'', ''cat2''],
       init_sub_categories = [(''cat1'', [(''s'', [''a'', ''b''])])],
       categories_update = [''cat1'', ''cat2''], cat_to_sub_cat = None,
       categories_filter_update = None \<rparr>) = [''a'', ''b'', ''cat2'']
   \<and> get_categories (set_cat_to_sub_cat [(''cat1'', ''s'')]
     \<lparr> init_categories = [''cat1'', ''cat2''],
       init_sub_categories = [(''cat1'', [(''s'', [''a'', ''b''])])],
       categories_update = [''cat1'', ''cat2''], cat_to_sub_cat = None,
       categories_filter_update = None \<rparr>) True True False False
     = AsDict [(''a'', ''1''), (''b'', ''2''), (''cat2'', ''3'')]"
  by code_simp

text \<open>
  Claim C1 at the input where the code departs from it. The registry has the single category
  \<open>c\<close>, whose sub-category dictionary has a key \<open>c\<close> too, with values \<open>x\<close> and \<open>y\<close>. The
  mapping is empty, so \<open>c\<close> is not listed and its block should be \<open>c\<close> alone. The code
  looks the unlisted category up under its own name, finds the sub-category \<open>c\<close> and
  replaces the category by \<open>x\<close> and \<open>y\<close>.
\<close>

theorem set_cat_to_sub_cat_unlisted_replaced:
  "categories_update (set_cat_to_sub_cat []
     \<lparr> init_categories = [''c''], init_sub_categories = [(''c'', [(''c'', [''x'', ''y''])])],
       categories_update = [''c''], cat_to_sub_cat = None, categories_filter_update = None \<rparr>)
   = [''x'', ''y'']"
  by code_simp

text \<open>A substitution leaves the stored filter as it is.\<close>

lemma is_filtered_set_cat_to_sub_cat:
  "is_filtered (set_cat_to_sub_cat m r) = is_filtered r
   \<and> categories_filter_update (set_cat_to_sub_cat m r) = categories_filter_update r"
  by (simp add: set_cat_to_sub_cat_def is_filtered_def Let_def)

text \<open>
  Claim C5 at an input where the code departs from it. On the registry of the example,
  \<^verbatim>\<open>filter_categories(["cat1"])\<close> followed by \<^verbatim>\<open>set_cat_to_sub_cat({"cat1": "s"})\<close> leaves
  \<^verbatim>\<open>is_filtered()\<close> true, and the filtered view is still \<open>cat1\<close>, a name that the current
  list \<open>a\<close>, \<open>b\<close>, \<open>cat2\<close> no longer has; asking for the sub-categories of \<open>a\<close>, which
  is in the current list, trips the assertion.
\<close>

theorem stale_filter_after_set_cat_to_sub_cat:
  "new_DatasetCategories [''cat1'', ''cat2''] [(''cat1'', [(''s'', [''a'', ''b''])])] = Inr example_registry
   \<and> is_filtered (set_cat_to_sub_cat [(''cat1'', ''s'')]
        (filter_categories (Lst [''cat1'']) example_registry))
   \<and> get_categories (set_cat_to_sub_cat [(''cat1'', ''s'')]
        (filter_categories (Lst [''cat1'']) example_registry)) False False False True = AsList [''cat1'']
   \<and> get_categories (set_cat_to_sub_cat [(''cat1'', ''s'')]
        (filter_categories (Lst [''cat1'']) example_registry)) False False False False = AsList [''a'', ''b'', ''cat2'']
   \<and> get_sub_categories (set_cat_to_sub_cat [(''cat1'', ''s'')]
        (filter_categories (Lst [''cat1'']) example_registry)) (Some (Str ''a'')) = Inl AssertionError"
  by code_simp

subsection \<open>Merging\<close>

lemma merge_init_categories_eq:
  "merge_init_categories cs = first_appearance (concat (map init_categories cs))"
  unfolding merge_init_categories_def
  by (simp add: foldl_foldl_concat foldl_first_appearance [of "[]", simplified])

lemma set_intersection:
  "set (intersection s others) = {x \<in> set s. \<forall>other \<in> set others. x \<in> set other}"
  by (auto simp: intersection_def list_all_iff)

lemma collect_Inr:
  "(\<And>x. x \<in> set xs \<Longrightarrow> f x = Inr (g x)) \<Longrightarrow> collect f xs = Inr (map g xs)"
  by (induction xs) simp_all

lemma build_dict_Inr:
  "(\<And>k. k \<in> set ks \<Longrightarrow> f k = Inr (g k)) \<Longrightarrow> distinct ks \<Longrightarrow> set ks \<inter> fst ` set d = {} \<Longrightarrow>
   build_dict f ks d = Inr (d @ map (\<lambda>k. (k, g k)) ks)"
proof (induction ks arbitrary: d)
  case Nil
  then show ?case by simp
next
  case (Cons k ks)
  from Cons.prems have fresh: "k \<notin> fst ` set d" by auto
  have "build_dict f ks (d @ [(k, g k)]) = Inr ((d @ [(k, g k)]) @ map (\<lambda>k. (k, g k)) ks)"
    using Cons.prems by (intro Cons.IH) auto
  then show ?case using Cons.prems(1) [of k] by (simp add: dict_set_fresh [OF fresh])
qed

lemma set_merged_keys:
  assumes "set_order lo" "cs \<noteq> []"
  shows "set (merged_keys lo cs) = {key. \<forall>cat \<in> set cs. dict_get (init_sub_categories cat) key \<noteq> None}"
    and "distinct (merged_keys lo cs)"
proof -
  from assms(2) obtain c0 rest where cs: "cs = c0 # rest" by (cases cs) auto
  from assms(1) show "distinct (merged_keys lo cs)" by (simp add: set_order_def merged_keys_def)
  from assms(1) show "set (merged_keys lo cs) = {key. \<forall>cat \<in> set cs. dict_get (init_sub_categories cat) key \<noteq> None}"
    by (auto simp: set_order_def merged_keys_def set_intersection cs dict_keys_iff)
qed

lemma set_merged_sub_cat_keys:
  assumes "set_order lo" "cs \<noteq> []" "\<forall>cat \<in> set cs. dict_get (init_sub_categories cat) key \<noteq> None"
  shows "set (merged_sub_cat_keys lo cs key) = {sk. \<forall>cat \<in> set cs. has_sub_cat cat key sk}"
    and "distinct (merged_sub_cat_keys lo cs key)"
proof -
  from assms(2) obtain c0 rest where cs: "cs = c0 # rest" by (cases cs) auto
  from assms(1) show "distinct (merged_sub_cat_keys lo cs key)"
    by (simp add: set_order_def merged_sub_cat_keys_def)
  have h: "has_sub_cat cat key sk \<longleftrightarrow> sk \<in> set (dict_keys (the (dict_get (init_sub_categories cat) key)))"
    if "cat \<in> set cs" for cat sk
    using assms(3) that by (auto simp: has_sub_cat_def dict_keys_iff)
  from assms(1) show "set (merged_sub_cat_keys lo cs key) = {sk. \<forall>cat \<in> set cs. has_sub_cat cat key sk}"
    using h by (auto simp: set_order_def merged_sub_cat_keys_def set_intersection cs)
qed

lemma merged_values_Inr:
  assumes "\<forall>cat \<in> set cs. has_sub_cat cat key sk"
  shows "merged_values lo cs key sk = Inr (lo (concat (map (\<lambda>cat. sub_cat_values cat key sk) cs)))"
proof -
  have "collect (\<lambda>cat. case subscript (init_sub_categories cat) key of
                             Inl e \<Rightarrow> Inl e
                           | Inr d \<Rightarrow> subscript d sk) cs
        = Inr (map (\<lambda>cat. sub_cat_values cat key sk) cs)"
    using assms
    by (intro collect_Inr) (auto simp: has_sub_cat_def sub_cat_values_def subscript_def split: option.splits)
  then show ?thesis by (simp add: merged_values_def)
qed

lemma merged_sub_cat_Inr:
  assumes "set_order lo" "cs \<noteq> []" "\<forall>cat \<in> set cs. dict_get (init_sub_categories cat) key \<noteq> None"
  shows "merged_sub_cat lo cs key =
     Inr (map (\<lambda>sk. (sk, lo (concat (map (\<lambda>cat. sub_cat_values cat key sk) cs))))
            (merged_sub_cat_keys lo cs key))"
proof -
  from assms(2) obtain c0 rest where cs: "cs = c0 # rest" by (cases cs) auto
  have c: "collect (\<lambda>cat. subscript (init_sub_categories cat) key) cs
        = Inr (map (\<lambda>cat. the (dict_get (init_sub_categories cat) key)) cs)"
    using assms(3) by (intro collect_Inr) (auto simp: subscript_def split: option.splits)
  have b: "build_dict (merged_values lo cs key) (merged_sub_cat_keys lo cs key) []
     = Inr ([] @ map (\<lambda>sk. (sk, lo (concat (map (\<lambda>cat. sub_cat_values cat key sk) cs))))
            (merged_sub_cat_keys lo cs key))"
  proof (rule build_dict_Inr)
    fix sk assume "sk \<in> set (merged_sub_cat_keys lo cs key)"
    then have "\<forall>cat \<in> set cs. has_sub_cat cat key sk"
      using set_merged_sub_cat_keys(1) [OF assms] by simp
    then show "merged_values lo cs key sk = Inr (lo (concat (map (\<lambda>cat. sub_cat_values cat key sk) cs)))"
      by (rule merged_values_Inr)
  qed (simp_all add: set_merged_sub_cat_keys(2) [OF assms])
  show ?thesis
    unfolding merged_sub_cat_def c using b by (simp add: cs merged_sub_cat_keys_def comp_def)
qed

lemma get_merged_categories_Inr:
  assumes "set_order lo" "cs \<noteq> []"
  shows "get_merged_categories lo cs = Inr (merged_registry lo cs)"
proof -
  from assms(2) obtain c0 rest where cs: "cs = c0 # rest" by (cases cs) auto
  let ?g = "\<lambda>key. map (\<lambda>sk. (sk, lo (concat (map (\<lambda>cat. sub_cat_values cat key sk) cs))))
                             (merged_sub_cat_keys lo cs key)"
  have b: "build_dict (merged_sub_cat lo cs) (merged_keys lo cs) [] =
      Inr ([] @ map (\<lambda>key. (key, ?g key)) (merged_keys lo cs))"
  proof (rule build_dict_Inr)
    fix key assume "key \<in> set (merged_keys lo cs)"
    then have "\<forall>cat \<in> set cs. dict_get (init_sub_categories cat) key \<noteq> None"
      using set_merged_keys(1) [OF assms] by simp
    with assms show "merged_sub_cat lo cs key = Inr (?g key)" by (rule merged_sub_cat_Inr)
  qed (simp_all add: set_merged_keys(2) [OF assms])
  have u: "map (\<lambda>cat. iter (get_categories cat False False False False)) cs = map categories_update cs"
    by (simp add: get_categories_def)
  from b have b': "build_dict (merged_sub_cat lo (c0 # rest))
     (lo (intersection (dict_keys (init_sub_categories c0))
           (map (\<lambda>cat. dict_keys (init_sub_categories cat)) rest))) [] =
      Inr (map (\<lambda>key. (key, ?g key)) (merged_keys lo cs))"
    by (simp add: cs merged_keys_def)
  have "get_merged_categories lo (c0 # rest) = Inr (merged_registry lo cs)"
    unfolding get_merged_categories_def Let_def list.case b' sum.case new_DatasetCategories_def
    by (simp add: merged_registry_def merge_init_categories_eq cs get_categories_def)
  then show ?thesis by (simp add: cs)
qed

lemma has_sub_cat_imp_key: "has_sub_cat cat key sk \<Longrightarrow> dict_get (init_sub_categories cat) key \<noteq> None"
  by (auto simp: has_sub_cat_def split: option.splits)

lemma init_sub_categories_merged_registry:
  "init_sub_categories (merged_registry lo cs) =
     map (\<lambda>key. (key, map (\<lambda>sk. (sk, lo (concat (map (\<lambda>cat. sub_cat_values cat key sk) cs))))
                             (merged_sub_cat_keys lo cs key)))
           (merged_keys lo cs)"
  by (simp add: merged_registry_def)

lemma merged_registry_key:
  assumes "set_order lo" "cs \<noteq> []"
  shows "dict_get (init_sub_categories (merged_registry lo cs)) key \<noteq> None
         \<longleftrightarrow> (\<forall>cat \<in> set cs. dict_get (init_sub_categories cat) key \<noteq> None)"
  using set_merged_keys(1) [OF assms]
  by (simp add: init_sub_categories_merged_registry dict_get_map_keys)

lemma merged_registry_has_sub_cat:
  assumes "set_order lo" "cs \<noteq> []"
  shows "has_sub_cat (merged_registry lo cs) key sk \<longleftrightarrow> (\<forall>cat \<in> set cs. has_sub_cat cat key sk)"
proof (cases "\<forall>cat \<in> set cs. dict_get (init_sub_categories cat) key \<noteq> None")
  case True
  then have k: "key \<in> set (merged_keys lo cs)" using set_merged_keys(1) [OF assms] by simp
  show ?thesis
    unfolding has_sub_cat_def [of "merged_registry lo cs"] init_sub_categories_merged_registry
    using k set_merged_sub_cat_keys(1) [OF assms True]
    by (simp add: dict_get_map_keys)
next
  case False
  then have k: "key \<notin> set (merged_keys lo cs)" using set_merged_keys(1) [OF assms] by simp
  from False obtain cat where "cat \<in> set cs" "\<not> has_sub_cat cat key sk"
    using has_sub_cat_imp_key by blast
  then have r: "\<not> (\<forall>cat \<in> set cs. has_sub_cat cat key sk)" by blast
  have "\<not> has_sub_cat (merged_registry lo cs) key sk"
    unfolding has_sub_cat_def [of "merged_registry lo cs"] init_sub_categories_merged_registry
    using k by (simp add: dict_get_map_keys)
  with r show ?thesis by simp
qed

lemma merged_registry_values:
  assumes "set_order lo" "cs \<noteq> []" "has_sub_cat (merged_registry lo cs) key sk"
  shows "sub_cat_values (merged_registry lo cs) key sk
         = lo (concat (map (\<lambda>cat. sub_cat_values cat key sk) cs))"
proof -
  from assms have all: "\<forall>cat \<in> set cs. has_sub_cat cat key sk"
    by (simp add: merged_registry_has_sub_cat)
  then have keys: "\<forall>cat \<in> set cs. dict_get (init_sub_categories cat) key \<noteq> None"
    using has_sub_cat_imp_key by blast
  then have k: "key \<in> set (merged_keys lo cs)" using set_merged_keys(1) [OF assms(1,2)] by simp
  from all have sk: "sk \<in> set (merged_sub_cat_keys lo cs key)"
    using set_merged_sub_cat_keys(1) [OF assms(1,2) keys] by simp
  show ?thesis
    unfolding sub_cat_values_def [of "merged_registry lo cs"] init_sub_categories_merged_registry
    using k sk by (simp add: dict_get_map_keys)
qed

lemma merged_registry_is_dict:
  assumes "set_order lo" "cs \<noteq> []"
  shows "is_dict (init_sub_categories (merged_registry lo cs))"
  using set_merged_keys(2) [OF assms]
  by (simp add: is_dict_def init_sub_categories_merged_registry comp_def)

text \<open>
  Claim C2. For a non-empty list of registries, and whatever order Python traverses its sets
  in, \<^verbatim>\<open>get_merged_categories\<close> returns a registry such that: its initial categories are
  the initial categories of all inputs without repetitions, each at its first appearance
  along the inputs; a category has sub-categories in the result exactly when it has some in
  every input; the result defines a sub-category for a category exactly when every input
  does; and the value list of such a sub-category has, as a set, the values of all the
  inputs' lists for it.
\<close>

theorem get_merged_categories_union_intersection:
  assumes "cs \<noteq> []" and "set_order lo"
  shows "\<exists>merged. get_merged_categories lo cs = Inr merged
     \<and> init_categories merged = first_appearance (concat (map init_categories cs))
     \<and> distinct (init_categories merged)
     \<and> set (init_categories merged) = (\<Union>cat \<in> set cs. set (init_categories cat))
     \<and> is_dict (init_sub_categories merged)
     \<and> (\<forall>key. dict_get (init_sub_categories merged) key \<noteq> None
            \<longleftrightarrow> (\<forall>cat \<in> set cs. dict_get (init_sub_categories cat) key \<noteq> None))
     \<and> (\<forall>key sk. has_sub_cat merged key sk \<longleftrightarrow> (\<forall>cat \<in> set cs. has_sub_cat cat key sk))
     \<and> (\<forall>key sk. has_sub_cat merged key sk \<longrightarrow>
            set (sub_cat_values merged key sk) = (\<Union>cat \<in> set cs. set (sub_cat_values cat key sk)))"
proof -
  let ?m = "merged_registry lo cs"
  have 1: "get_merged_categories lo cs = Inr ?m"
    using assms by (simp add: get_merged_categories_Inr)
  have 2: "init_categories ?m = first_appearance (concat (map init_categories cs))"
    by (simp add: merged_registry_def)
  have 3: "distinct (init_categories ?m)"
    by (simp add: 2 first_appearance_def)
  have 4: "set (init_categories ?m) = (\<Union>cat \<in> set cs. set (init_categories cat))"
    by (simp add: 2 first_appearance_def)
  have 5: "is_dict (init_sub_categories ?m)"
    using assms by (simp add: merged_registry_is_dict)
  have 6: "\<forall>key. dict_get (init_sub_categories ?m) key \<noteq> None
            \<longleftrightarrow> (\<forall>cat \<in> set cs. dict_get (init_sub_categories cat) key \<noteq> None)"
    using merged_registry_key [OF assms(2,1)] by blast
  have 7: "\<forall>key sk. has_sub_cat ?m key sk \<longleftrightarrow> (\<forall>cat \<in> set cs. has_sub_cat cat key sk)"
    using merged_registry_has_sub_cat [OF assms(2,1)] by blast
  have 8: "\<forall>key sk. has_sub_cat ?m key sk \<longrightarrow>
            set (sub_cat_values ?m key sk) = (\<Union>cat \<in> set cs. set (sub_cat_values cat key sk))"
  proof (intro allI impI)
    fix key sk assume "has_sub_cat ?m key sk"
    from merged_registry_values [OF assms(2,1) this] assms(2)
    show "set (sub_cat_values ?m key sk) = (\<Union>cat \<in> set cs. set (sub_cat_values cat key sk))"
      by (simp add: set_order_def)
  qed
  show ?thesis
    by (rule exI [of _ ?m]) (intro conjI 1 2 3 4 5 6 7 8)
qed

text \<open>
  The example of the specification: \<open>A\<close> has the categories \<open>cat1\<close>, \<open>cat2\<close> and the
  sub-category \<open>s\<close> of \<open>cat1\<close>, \<open>B\<close> has \<open>cat2\<close>, \<open>cat3\<close> and no sub-categories. The merged
  initial categories are \<open>cat1\<close>, \<open>cat2\<close>, \<open>cat3\<close> and there are no merged sub-categories.
\<close>

theorem get_merged_categories_union_intersection_witness:
  "[merge_example_A, merge_example_B] \<noteq> [] \<and> set_order remdups
   \<and> (\<exists>merged. get_merged_categories remdups [merge_example_A, merge_example_B] = Inr merged
     \<and> init_categories merged = [''cat1'', ''cat2'', ''cat3'']
     \<and> init_sub_categories merged = [])"
proof -
  let ?cs = "[merge_example_A, merge_example_B]"
  have ne: "?cs \<noteq> []" by simp
  have so: "set_order remdups" by (simp add: set_order_def)
  from get_merged_categories_union_intersection [OF ne so]
  obtain merged where all: "get_merged_categories remdups ?cs = Inr merged
     \<and> init_categories merged = first_appearance (concat (map init_categories ?cs))
     \<and> distinct (init_categories merged)
     \<and> set (init_categories merged) = (\<Union>cat \<in> set ?cs. set (init_categories cat))
     \<and> is_dict (init_sub_categories merged)
     \<and> (\<forall>key. dict_get (init_sub_categories merged) key \<noteq> None
            \<longleftrightarrow> (\<forall>cat \<in> set ?cs. dict_get (init_sub_categories cat) key \<noteq> None))
     \<and> (\<forall>key sk. has_sub_cat merged key sk \<longleftrightarrow> (\<forall>cat \<in> set ?cs. has_sub_cat cat key sk))
     \<and> (\<forall>key sk. has_sub_cat merged key sk \<longrightarrow>
            set (sub_cat_values merged key sk) = (\<Union>cat \<in> set ?cs. set (sub_cat_values cat key sk)))" ..
  from all have m: "get_merged_categories remdups ?cs = Inr merged" by (rule conjunct1)
  from all have i: "init_categories merged = first_appearance (concat (map init_categories ?cs))"
    by (elim conjE)
  from all have k: "\<forall>key. dict_get (init_sub_categories merged) key \<noteq> None
            \<longleftrightarrow> (\<forall>cat \<in> set ?cs. dict_get (init_sub_categories cat) key \<noteq> None)"
    by (elim conjE)
  have i': "init_categories merged = [''cat1'', ''cat2'', ''cat3'']"
    unfolding i by (simp add: first_appearance_def merge_example_A_def merge_example_B_def)
  from k have n: "\<And>key. dict_get (init_sub_categories merged) key = None"
    by (simp add: merge_example_B_def dict_get_def)
  have e: "init_sub_categories merged = []"
  proof (cases "init_sub_categories merged")
    case Nil
    then show ?thesis .
  next
    case (Cons p d)
    with n [of "fst p"] show ?thesis by (simp add: dict_get_def)
  qed
  show ?thesis
    by (intro conjI exI [of _ merged] ne so m i' e)
qed

text \<open>
  Claim C10. For a non-empty list of registries the merged registry always counts as
  filtered, and never has a substitution. Its filtered list has, once each, the names of the
  inputs' current views: of the filtered list of an input that has one, of the current list
  of an input that has none.
\<close>

theorem get_merged_categories_filtered:
  assumes "cs \<noteq> []" and "set_order lo"
  shows "\<exists>merged fl. get_merged_categories lo cs = Inr merged
     \<and> is_filtered merged
     \<and> categories_filter_update merged = Some fl
     \<and> set fl = (\<Union>cat \<in> set cs. set (current_view cat))
     \<and> distinct fl
     \<and> cat_to_sub_cat merged = None
     \<and> \<not> is_cat_to_sub_cat merged"
proof -
  let ?m = "merged_registry lo cs"
  let ?fl = "lo (concat (map (\<lambda>cat. iter (get_categories cat False False False True)) cs))"
  have 1: "get_merged_categories lo cs = Inr ?m"
    using assms by (simp add: get_merged_categories_Inr)
  have 2: "categories_filter_update ?m = Some ?fl" by (simp add: merged_registry_def)
  have 3: "is_filtered ?m" by (simp add: is_filtered_def 2)
  have 4: "set ?fl = (\<Union>cat \<in> set cs. set (current_view cat))"
    using assms(2) by (simp add: set_order_def iter_filtered_view)
  have 5: "distinct ?fl" using assms(2) by (simp add: set_order_def)
  have 6: "cat_to_sub_cat ?m = None" by (simp add: merged_registry_def)
  have 7: "\<not> is_cat_to_sub_cat ?m" by (simp add: is_cat_to_sub_cat_def 6)
  show ?thesis
    by (rule exI [of _ ?m], rule exI [of _ ?fl]) (intro conjI 1 2 3 4 5 6 7)
qed

text \<open>
  Two unfiltered inputs, the first with an active substitution: the merged registry is
  filtered, with the names \<open>x\<close>, \<open>y\<close>, \<open>cat2\<close>, \<open>cat3\<close>, and has no substitution.
\<close>

theorem get_merged_categories_filtered_witness:
  "[set_cat_to_sub_cat [(''cat1'', ''s'')] merge_example_A, merge_example_B] \<noteq> [] \<and> set_order remdups
   \<and> \<not> is_filtered (set_cat_to_sub_cat [(''cat1'', ''s'')] merge_example_A)
   \<and> \<not> is_filtered merge_example_B
   \<and> is_cat_to_sub_cat (set_cat_to_sub_cat [(''cat1'', ''s'')] merge_example_A)
   \<and> (\<exists>merged fl. get_merged_categories remdups
          [set_cat_to_sub_cat [(''cat1'', ''s'')] merge_example_A, merge_example_B] = Inr merged
        \<and> is_filtered merged
        \<and> categories_filter_update merged = Some fl
        \<and> set fl = {''x'', ''y'', ''cat2'', ''cat3''}
        \<and> \<not> is_cat_to_sub_cat merged)"
proof -
  let ?a = "set_cat_to_sub_cat [(''cat1'', ''s'')] merge_example_A"
  let ?cs = "[?a, merge_example_B]"
  have ne: "?cs \<noteq> []" by simp
  have so: "set_order remdups" by (simp add: set_order_def)
  have a: "\<not> is_filtered ?a" by code_simp
  have b: "\<not> is_filtered merge_example_B" by code_simp
  have c: "is_cat_to_sub_cat ?a" by code_simp
  have va: "current_view ?a = [''x'', ''y'', ''cat2'']" by code_simp
  have vb: "current_view merge_example_B = [''cat2'', ''cat3'']" by code_simp
  from get_merged_categories_filtered [OF ne so]
  obtain merged where "\<exists>fl. get_merged_categories remdups ?cs = Inr merged
     \<and> is_filtered merged
     \<and> categories_filter_update merged = Some fl
     \<and> set fl = (\<Union>cat \<in> set ?cs. set (current_view cat))
     \<and> distinct fl
     \<and> cat_to_sub_cat merged = None
     \<and> \<not> is_cat_to_sub_cat merged" ..
  then obtain fl where all: "get_merged_categories remdups ?cs = Inr merged
     \<and> is_filtered merged
     \<and> categories_filter_update merged = Some fl
     \<and> set fl = (\<Union>cat \<in> set ?cs. set (current_view cat))
     \<and> distinct fl
     \<and> cat_to_sub_cat merged = None
     \<and> \<not> is_cat_to_sub_cat merged" ..
  from all have m: "get_merged_categories remdups ?cs = Inr merged" by (rule conjunct1)
  from all have f: "is_filtered merged" by (elim conjE)
  from all have u: "categories_filter_update merged = Some fl" by (elim conjE)
  from all have "set fl = (\<Union>cat \<in> set ?cs. set (current_view cat))" by (elim conjE)
  also have "\<dots> = set (current_view ?a) \<union> set (current_view merge_example_B)" by simp
  also have "\<dots> = set [''x'', ''y'', ''cat2''] \<union> set [''cat2'', ''cat3'']"
    by (simp only: va vb)
  also have "\<dots> = {''x'', ''y'', ''cat2'', ''cat3''}" by (simp add: insert_commute)
  finally have e: "set fl = {''x'', ''y'', ''cat2'', ''cat3''}" .
  from all have s: "\<not> is_cat_to_sub_cat merged" by (elim conjE)
  have x: "\<exists>merged fl. get_merged_categories remdups ?cs = Inr merged
        \<and> is_filtered merged
        \<and> categories_filter_update merged = Some fl
        \<and> set fl = {''x'', ''y'', ''cat2'', ''cat3''}
        \<and> \<not> is_cat_to_sub_cat merged"
    by (rule exI [of _ merged], rule exI [of _ fl]) (intro conjI m f u e s)
  show ?thesis by (intro conjI ne so a b c x)
qed

text \<open>
  Claim C7, as the code has it. Called with no registry, \<^verbatim>\<open>get_merged_categories\<close> returns
  nothing: the subscript \<^verbatim>\<open>categories[0]\<close> of the empty argument tuple raises
  \<^verbatim>\<open>IndexError\<close>.
\<close>

theorem get_merged_categories_empty: "get_merged_categories lo [] = Inl IndexError"
  by (simp add: get_merged_categories_def)

text \<open>The error is not the one the specification names.\<close>

theorem get_merged_categories_empty_not_InvalidRequestError:
  "get_merged_categories remdups [] \<noteq> Inl InvalidRequestError"
  by (simp add: get_merged_categories_def)

subsection \<open>Sub-categories of the categories in view\<close>

lemma dict_get_dict_set:
  "dict_get (dict_set k v d) k' = (if k' = k then Some v else dict_get d k')"
  by (induction d) (auto simp: dict_get_def)

lemma foldl_guarded_idem:
  assumes "\<And>x. f (f x) = f x"
  shows "foldl (\<lambda>sc pos. if pos = val then f sc else sc) sc ks = (if val \<in> set ks then f sc else sc)"
  by (induction ks arbitrary: sc) (auto simp: assms)

lemma pos_loop_eq:
  "pos_loop cat val d sc =
     (if val \<in> set (dict_keys d)
      then dict_set cat (case dict_get d cat of None \<Rightarrow> [] | Some l \<Rightarrow> l) sc else sc)"
proof -
  let ?f = "dict_set cat (case dict_get d cat of None \<Rightarrow> [] | Some l \<Rightarrow> l)"
  have e: "(case dict_get d cat of None \<Rightarrow> dict_set cat [] sc
            | Some sub_cat_list \<Rightarrow> dict_set cat sub_cat_list sc) = ?f sc" for sc
    by (simp split: option.splits)
  have "pos_loop cat val d sc = foldl (\<lambda>sc pos. if pos = val then ?f sc else sc) sc (dict_keys d)"
    unfolding pos_loop_def e ..
  also have "\<dots> = (if val \<in> set (dict_keys d) then ?f sc else sc)"
    by (rule foldl_guarded_idem) (rule dict_set_overwrite)
  finally show ?thesis .
qed

lemma items_loop_error: "items_loop sub_cats cat m sc = Inl e \<Longrightarrow> e = KeyError"
  by (induction sub_cats cat m sc rule: items_loop.induct) (auto split: option.splits)

lemma items_loop_KeyError:
  "\<exists>key \<in> set (dict_keys m). dict_get sub_cats key = None \<Longrightarrow>
   items_loop sub_cats cat m sc = Inl KeyError"
  by (induction sub_cats cat m sc rule: items_loop.induct)
     (auto simp: dict_keys_def split: option.splits)

lemma items_loop_Inr:
  assumes "\<forall>key \<in> set (dict_keys m). dict_get sub_cats key \<noteq> None"
  shows "items_loop sub_cats cat m sc =
     Inr (case chosen_pairs sub_cats m of
            [] \<Rightarrow> sc
          | p # ps \<Rightarrow>
              dict_set cat
                (case dict_get (the (dict_get sub_cats (fst (last (p # ps))))) cat of
                   None \<Rightarrow> [] | Some l \<Rightarrow> l) sc)"
  using assms
proof (induction sub_cats cat m sc rule: items_loop.induct)
  case (1 sub_cats cat sub_cat)
  then show ?case by (simp add: chosen_pairs_def)
next
  case (2 sub_cats cat key val m sub_cat)
  from "2.prems" obtain d where d: "dict_get sub_cats key = Some d"
    by (auto simp: dict_keys_def)
  from "2.prems" have rest: "\<forall>key \<in> set (dict_keys m). dict_get sub_cats key \<noteq> None"
    by (simp add: dict_keys_def)
  note IH = "2.IH" [OF d rest]
  have c: "chosen_pairs sub_cats ((key, val) # m) =
      (if val \<in> set (dict_keys d) then (key, val) # chosen_pairs sub_cats m
       else chosen_pairs sub_cats m)"
    by (simp add: chosen_pairs_def d)
  have step: "items_loop sub_cats cat ((key, val) # m) sub_cat =
      items_loop sub_cats cat m (pos_loop cat val d sub_cat)"
    by (simp add: d)
  show ?case
  proof (cases "val \<in> set (dict_keys d)")
    case True
    then show ?thesis
      unfolding step IH c
      by (cases "chosen_pairs sub_cats m") (simp_all add: pos_loop_eq d dict_set_overwrite)
  next
    case False
    then show ?thesis
      unfolding step IH c
      by (cases "chosen_pairs sub_cats m") (simp_all add: pos_loop_eq)
  qed
qed

lemma chosen_pairs_key:
  "q \<in> set (chosen_pairs sub_cats m) \<Longrightarrow> dict_get sub_cats (fst q) \<noteq> None"
  by (auto simp: chosen_pairs_def split: option.splits)

lemma chosen_pairs_value:
  assumes "chosen_pairs (init_sub_categories self) m = p # ps"
  shows "(case dict_get (the (dict_get (init_sub_categories self) (fst (last (p # ps))))) c of
            None \<Rightarrow> [] | Some l \<Rightarrow> l) = sub_cat_values self (fst (last (p # ps))) c"
proof -
  have "last (p # ps) \<in> set (chosen_pairs (init_sub_categories self) m)"
    unfolding assms by (rule last_in_set) simp
  then have "dict_get (init_sub_categories self) (fst (last (p # ps))) \<noteq> None"
    by (rule chosen_pairs_key)
  then obtain d where "dict_get (init_sub_categories self) (fst (last (p # ps))) = Some d"
    by blast
  then show ?thesis unfolding sub_cat_values_def by simp
qed

text \<open>
  One round of the loop over the requested names, and the whole loop, when the substitution
  is defined and the names are in the current view: no error, and the entries are the
  expected ones.
\<close>

lemma cat_loop_step:
  assumes "substitution_defined self" and "c \<in> set (current_view self)"
  shows "\<exists>sc'. cat_loop self (c # cs) sc = cat_loop self cs sc'
     \<and> (\<forall>c'. dict_get sc' c' =
           (if c' = c \<and> expected_entry self c \<noteq> None then expected_entry self c else dict_get sc c'))"
proof (cases "dict_get (init_sub_categories self) c")
  case (Some d)
  with assms(2) show ?thesis
    by (intro exI [of _ "dict_set c (dict_keys d) sc"])
       (simp add: iter_filtered_view expected_entry_def dict_get_dict_set)
next
  case None
  show ?thesis
  proof (cases "cat_to_sub_cat self")
    case n: None
    with None assms(2) show ?thesis
      by (intro exI [of _ sc]) (simp add: iter_filtered_view expected_entry_def)
  next
    case (Some m)
    with assms(1) have keys: "\<forall>key \<in> set (dict_keys m). dict_get (init_sub_categories self) key \<noteq> None"
      by (simp add: substitution_defined_def list_all_iff)
    note il = items_loop_Inr [OF keys, of c sc]
    show ?thesis
    proof (cases "chosen_pairs (init_sub_categories self) m")
      case Nil
      have "cat_loop self (c # cs) sc = cat_loop self cs sc"
        using None Some assms(2) il Nil by (simp add: iter_filtered_view)
      then show ?thesis
        using None Some Nil by (intro exI [of _ sc]) (simp add: expected_entry_def)
    next
      case (Cons p ps)
      then have ne: "m \<noteq> []" by (auto simp: chosen_pairs_def)
      let ?v = "sub_cat_values self (fst (last (p # ps))) c"
      have "cat_loop self (c # cs) sc = cat_loop self cs (dict_set c ?v sc)"
        using None Some assms(2) il Cons ne chosen_pairs_value [OF Cons, of c]
        by (simp add: iter_filtered_view)
      then show ?thesis
        using None Some Cons
        by (intro exI [of _ "dict_set c ?v sc"]) (simp add: expected_entry_def dict_get_dict_set)
    qed
  qed
qed

lemma cat_loop_Inr:
  assumes "substitution_defined self" and "\<forall>c \<in> set cs. c \<in> set (current_view self)"
  shows "\<exists>res. cat_loop self cs sc = Inr res
     \<and> (\<forall>c. dict_get res c =
           (if c \<in> set cs \<and> expected_entry self c \<noteq> None then expected_entry self c else dict_get sc c))"
  using assms(2)
proof (induction cs arbitrary: sc)
  case Nil
  then show ?case by simp
next
  case (Cons c cs)
  from Cons.prems have c: "c \<in> set (current_view self)"
    and rest: "\<forall>c \<in> set cs. c \<in> set (current_view self)" by simp_all
  from cat_loop_step [OF assms(1) c, of cs sc]
  obtain sc' where s: "cat_loop self (c # cs) sc = cat_loop self cs sc'"
    and g: "\<And>c'. dict_get sc' c' =
           (if c' = c \<and> expected_entry self c \<noteq> None then expected_entry self c else dict_get sc c')"
    by blast
  from Cons.IH [OF rest, of sc']
  obtain res where r: "cat_loop self cs sc' = Inr res"
    and h: "\<And>c'. dict_get res c' =
           (if c' \<in> set cs \<and> expected_entry self c' \<noteq> None then expected_entry self c' else dict_get sc' c')"
    by blast
  have "\<forall>c'. dict_get res c' =
           (if c' \<in> set (c # cs) \<and> expected_entry self c' \<noteq> None then expected_entry self c'
            else dict_get sc c')"
    by (auto simp: h g)
  with s r show ?case by simp
qed

lemma cat_loop_entries:
  assumes "substitution_defined self" and "\<forall>c \<in> set cs. c \<in> set (current_view self)"
  shows "\<exists>res. cat_loop self cs [] = Inr res
     \<and> (\<forall>c. dict_get res c = (if c \<in> set cs then expected_entry self c else None))"
proof -
  from cat_loop_Inr [OF assms, of "[]"]
  obtain res where r: "cat_loop self cs [] = Inr res"
    and e: "\<And>c. dict_get res c =
           (if c \<in> set cs \<and> expected_entry self c \<noteq> None then expected_entry self c
            else dict_get [] c)" by blast
  have n: "dict_get ([] :: (string, string list) dict) c = None" for c
    by (simp add: dict_get_def)
  have "\<forall>c. dict_get res c = (if c \<in> set cs then expected_entry self c else None)"
    by (auto simp: e n)
  with r show ?thesis by blast
qed

lemma expected_entry_substituted:
  "cat_to_sub_cat self = Some m \<Longrightarrow> dict_get (init_sub_categories self) c = None \<Longrightarrow>
   expected_entry self c =
     (case chosen_pairs (init_sub_categories self) m of
        [] \<Rightarrow> None
      | p # ps \<Rightarrow> Some (sub_cat_values self (fst (last (p # ps))) c))"
  by (simp add: expected_entry_def)

lemma get_sub_categories_single:
  assumes "cat_to_sub_cat self = Some m"
    and "cat \<in> set (current_view self)"
    and "dict_get (init_sub_categories self) cat = None"
    and "\<forall>key \<in> set (dict_keys m). dict_get (init_sub_categories self) key \<noteq> None"
  shows "get_sub_categories self (Some (Str cat)) =
     Inr (case chosen_pairs (init_sub_categories self) m of
            [] \<Rightarrow> []
          | p # ps \<Rightarrow> [(cat, sub_cat_values self (fst (last (p # ps))) cat)])"
proof (cases "chosen_pairs (init_sub_categories self) m")
  case Nil
  with assms(1-3) items_loop_Inr [OF assms(4), of cat "[]"] show ?thesis
    by (cases "m = []") (simp_all add: get_sub_categories_def iter_filtered_view)
next
  case (Cons p ps)
  then have "m \<noteq> []" by (auto simp: chosen_pairs_def)
  with Cons assms(1-3) items_loop_Inr [OF assms(4), of cat "[]"] chosen_pairs_value [OF Cons, of cat]
  show ?thesis
    by (simp add: get_sub_categories_def iter_filtered_view)
qed

text \<open>
  Claim C8, as the code has it. Let a substitution mapping be set, all of whose categories
  have sub-categories in the registry. Whether \<^verbatim>\<open>get_sub_categories\<close> is called with one name,
  with a list of names, or with no argument (all names of the current view), for every
  requested name that is in the current view and has no sub-categories of its own the
  result has an entry exactly when some pair of the mapping chooses a sub-category key that
  its category has. The entry is then taken from the last such pair: it is the value list
  stored under the requested name itself in that category's sub-category dictionary, and
  the empty list when the requested name is not a sub-category key there.
\<close>

theorem get_sub_categories_substituted:
  assumes "cat_to_sub_cat self = Some m"
    and "\<forall>key \<in> set (dict_keys m). dict_get (init_sub_categories self) key \<noteq> None"
  shows "(cat \<in> set (current_view self) \<longrightarrow> dict_get (init_sub_categories self) cat = None \<longrightarrow>
            get_sub_categories self (Some (Str cat)) =
              Inr (case chosen_pairs (init_sub_categories self) m of
                     [] \<Rightarrow> []
                   | p # ps \<Rightarrow> [(cat, sub_cat_values self (fst (last (p # ps))) cat)]))
     \<and> ((\<forall>c \<in> set cs. c \<in> set (current_view self)) \<longrightarrow>
          (\<exists>res. get_sub_categories self (Some (Lst cs)) = Inr res
             \<and> (\<forall>c \<in> set cs. dict_get (init_sub_categories self) c = None \<longrightarrow>
                   dict_get res c =
                     (case chosen_pairs (init_sub_categories self) m of
                        [] \<Rightarrow> None
                      | p # ps \<Rightarrow> Some (sub_cat_values self (fst (last (p # ps))) c)))))
     \<and> (\<exists>res. get_sub_categories self None = Inr res
             \<and> (\<forall>c \<in> set (current_view self). dict_get (init_sub_categories self) c = None \<longrightarrow>
                   dict_get res c =
                     (case chosen_pairs (init_sub_categories self) m of
                        [] \<Rightarrow> None
                      | p # ps \<Rightarrow> Some (sub_cat_values self (fst (last (p # ps))) c))))"
proof (intro conjI impI)
  from assms have sd: "substitution_defined self"
    by (simp add: substitution_defined_def list_all_iff)
  show "get_sub_categories self (Some (Str cat)) =
      Inr (case chosen_pairs (init_sub_categories self) m of
             [] \<Rightarrow> []
           | p # ps \<Rightarrow> [(cat, sub_cat_values self (fst (last (p # ps))) cat)])"
    if "cat \<in> set (current_view self)" "dict_get (init_sub_categories self) cat = None"
    using assms(1) that assms(2) by (rule get_sub_categories_single)
  show "\<exists>res. get_sub_categories self (Some (Lst cs)) = Inr res
             \<and> (\<forall>c \<in> set cs. dict_get (init_sub_categories self) c = None \<longrightarrow>
                   dict_get res c =
                     (case chosen_pairs (init_sub_categories self) m of
                        [] \<Rightarrow> None
                      | p # ps \<Rightarrow> Some (sub_cat_values self (fst (last (p # ps))) c)))"
    if v: "\<forall>c \<in> set cs. c \<in> set (current_view self)"
  proof -
    from cat_loop_entries [OF sd v]
    obtain res where r: "cat_loop self cs [] = Inr res"
      and e: "\<And>c. dict_get res c = (if c \<in> set cs then expected_entry self c else None)" by blast
    show ?thesis
      by (rule exI [of _ res])
         (simp add: get_sub_categories_def r e expected_entry_substituted [OF assms(1)])
  qed
  show "\<exists>res. get_sub_categories self None = Inr res
             \<and> (\<forall>c \<in> set (current_view self). dict_get (init_sub_categories self) c = None \<longrightarrow>
                   dict_get res c =
                     (case chosen_pairs (init_sub_categories self) m of
                        [] \<Rightarrow> None
                      | p # ps \<Rightarrow> Some (sub_cat_values self (fst (last (p # ps))) c)))"
  proof -
    have v: "\<forall>c \<in> set (current_view self). c \<in> set (current_view self)" by simp
    from cat_loop_entries [OF sd v]
    obtain res where r: "cat_loop self (current_view self) [] = Inr res"
      and e: "\<And>c. dict_get res c =
                (if c \<in> set (current_view self) then expected_entry self c else None)" by blast
    show ?thesis
      by (rule exI [of _ res])
         (simp add: get_sub_categories_def iter_filtered_view r e
            expected_entry_substituted [OF assms(1)])
  qed
qed

text \<open>
  On the registry of the example with \<open>cat1\<close> replaced by its sub-category \<open>s\<close>, the
  promoted names \<open>a\<close> and \<open>b\<close> get the empty list, asked for alone, in a list, or with all
  names of the view.
\<close>

theorem get_sub_categories_substituted_witness:
  "cat_to_sub_cat (set_cat_to_sub_cat [(''cat1'', ''s'')] example_registry) = Some [(''cat1'', ''s'')]
   \<and> dict_get (init_sub_categories (set_cat_to_sub_cat [(''cat1'', ''s'')] example_registry)) ''cat1'' \<noteq> None
   \<and> current_view (set_cat_to_sub_cat [(''cat1'', ''s'')] example_registry) = [''a'', ''b'', ''cat2'']
   \<and> dict_get (init_sub_categories (set_cat_to_sub_cat [(''cat1'', ''s'')] example_registry)) ''a'' = None
   \<and> dict_get (init_sub_categories (set_cat_to_sub_cat [(''cat1'', ''s'')] example_registry)) ''b'' = None
   \<and> get_sub_categories (set_cat_to_sub_cat [(''cat1'', ''s'')] example_registry) (Some (Str ''a''))
       = Inr [(''a'', [])]
   \<and> (\<exists>res. get_sub_categories (set_cat_to_sub_cat [(''cat1'', ''s'')] example_registry)
               (Some (Lst [''b'', ''a''])) = Inr res
          \<and> dict_get res ''a'' = Some [] \<and> dict_get res ''b'' = Some [])
   \<and> (\<exists>res. get_sub_categories (set_cat_to_sub_cat [(''cat1'', ''s'')] example_registry) None = Inr res
          \<and> dict_get res ''a'' = Some [] \<and> dict_get res ''b'' = Some [])"
proof -
  let ?r = "set_cat_to_sub_cat [(''cat1'', ''s'')] example_registry"
  have 1: "cat_to_sub_cat ?r = Some [(''cat1'', ''s'')]" by code_simp
  have 2: "current_view ?r = [''a'', ''b'', ''cat2'']" by code_simp
  have 3: "dict_get (init_sub_categories ?r) ''a'' = None" by code_simp
  have nb: "dict_get (init_sub_categories ?r) ''b'' = None" by code_simp
  have 4: "dict_get (init_sub_categories ?r) ''cat1'' \<noteq> None" by code_simp
  then have 5: "\<forall>key \<in> set (dict_keys [(''cat1'', ''s'')]). dict_get (init_sub_categories ?r) key \<noteq> None"
    by (simp add: dict_keys_def)
  have c: "chosen_pairs (init_sub_categories ?r) [(''cat1'', ''s'')] = [(''cat1'', ''s'')]"
    by code_simp
  have va: "sub_cat_values ?r ''cat1'' ''a'' = []" by code_simp
  have vb: "sub_cat_values ?r ''cat1'' ''b'' = []" by code_simp
  note t = get_sub_categories_substituted [OF 1 5, of "''a''" "[''b'', ''a'']"]
  from t have s: "get_sub_categories ?r (Some (Str ''a'')) = Inr [(''a'', [])]"
    by (simp add: 2 3 c va)
  from t have "\<exists>res. get_sub_categories ?r (Some (Lst [''b'', ''a''])) = Inr res
             \<and> (\<forall>c \<in> set [''b'', ''a'']. dict_get (init_sub_categories ?r) c = None \<longrightarrow>
                   dict_get res c = Some (sub_cat_values ?r ''cat1'' c))"
    by (simp add: 2 c)
  then obtain res where l1: "get_sub_categories ?r (Some (Lst [''b'', ''a''])) = Inr res"
    and l2: "\<forall>c \<in> set [''b'', ''a'']. dict_get (init_sub_categories ?r) c = None \<longrightarrow>
                   dict_get res c = Some (sub_cat_values ?r ''cat1'' c)" by blast
  from l2 3 nb va vb have "dict_get res ''a'' = Some []" "dict_get res ''b'' = Some []"
    by simp_all
  with l1 have l: "\<exists>res. get_sub_categories ?r (Some (Lst [''b'', ''a''])) = Inr res
          \<and> dict_get res ''a'' = Some [] \<and> dict_get res ''b'' = Some []" by blast
  from t have "\<exists>res. get_sub_categories ?r None = Inr res
             \<and> (\<forall>c \<in> set (current_view ?r). dict_get (init_sub_categories ?r) c = None \<longrightarrow>
                   dict_get res c = Some (sub_cat_values ?r ''cat1'' c))"
    by (simp add: c)
  then obtain res' where n1: "get_sub_categories ?r None = Inr res'"
    and n2: "\<forall>c \<in> set (current_view ?r). dict_get (init_sub_categories ?r) c = None \<longrightarrow>
                   dict_get res' c = Some (sub_cat_values ?r ''cat1'' c)" by blast
  from n2 have "dict_get res' ''a'' = Some []" "dict_get res' ''b'' = Some []"
    unfolding 2 using 3 nb va vb by simp_all
  with n1 have n: "\<exists>res. get_sub_categories ?r None = Inr res
          \<and> dict_get res ''a'' = Some [] \<and> dict_get res ''b'' = Some []" by blast
  show ?thesis by (intro conjI 1 4 2 3 nb s l n)
qed

text \<open>
  An entry is not empty when a promoted name is also a sub-category key of the replaced
  category.
\<close>

lemma get_sub_categories_own_name_example:
  "get_sub_categories
     (set_cat_to_sub_cat [(''cat1'', ''a'')]
        \<lparr> init_categories = [''cat1'', ''cat2''],
          init_sub_categories = [(''cat1'', [(''a'', [''a'', ''b''])])],
          categories_update = [''cat1'', ''cat2''], cat_to_sub_cat = None,
          categories_filter_update = None \<rparr>)
     (Some (Lst [''a'', ''b''])) = Inr [(''a'', [''a'', ''b'']), (''b'', [])]"
  by code_simp

text \<open>
  The claim as the specification words it fails. When the mapping chooses a sub-category
  key \<open>zz\<close> that \<open>cat1\<close> does not have, the result for \<open>cat2\<close> has no entry at all, not the
  empty list. And with the chosen key \<open>s\<close>, whose value list is \<open>a\<close>, \<open>b\<close>, the entry of
  \<open>a\<close> is the empty list, not that value list.
\<close>

theorem get_sub_categories_substituted_counterexample:
  "is_cat_to_sub_cat (set_cat_to_sub_cat [(''cat1'', ''zz'')] example_registry)
   \<and> ''cat2'' \<in> set (current_view (set_cat_to_sub_cat [(''cat1'', ''zz'')] example_registry))
   \<and> dict_get (init_sub_categories (set_cat_to_sub_cat [(''cat1'', ''zz'')] example_registry)) ''cat2'' = None
   \<and> get_sub_categories (set_cat_to_sub_cat [(''cat1'', ''zz'')] example_registry) (Some (Str ''cat2''))
       = Inr []
   \<and> is_cat_to_sub_cat (set_cat_to_sub_cat [(''cat1'', ''s'')] example_registry)
   \<and> ''a'' \<in> set (current_view (set_cat_to_sub_cat [(''cat1'', ''s'')] example_registry))
   \<and> dict_get (init_sub_categories (set_cat_to_sub_cat [(''cat1'', ''s'')] example_registry)) ''a'' = None
   \<and> sub_cat_values (set_cat_to_sub_cat [(''cat1'', ''s'')] example_registry) ''cat1'' ''s'' = [''a'', ''b'']
   \<and> get_sub_categories (set_cat_to_sub_cat [(''cat1'', ''s'')] example_registry) (Some (Str ''a''))
       = Inr [(''a'', [])]"
  by code_simp

text \<open>
A mapping that lists a category without sub-categories makes the call fail.
\<close>

lemma get_sub_categories_KeyError:
  assumes "cat_to_sub_cat self = Some m"
    and "cat \<in> set (current_view self)"
    and "dict_get (init_sub_categories self) cat = None"
    and "\<exists>key \<in> set (dict_keys m). dict_get (init_sub_categories self) key = None"
  shows "get_sub_categories self (Some (Str cat)) = Inl KeyError"
proof -
  from assms(4) have "m \<noteq> []" by (auto simp: dict_keys_def)
  with assms(1-3) items_loop_KeyError [OF assms(4), of cat "[]"] show ?thesis
    by (simp add: get_sub_categories_def iter_filtered_view)
qed

lemma cat_loop_error:
  "cat_loop self cs sc = Inl e \<Longrightarrow> e = AssertionError \<or> e = KeyError"
  by (induction self cs sc rule: cat_loop.induct)
     (auto split: if_splits option.splits sum.splits dest: items_loop_error)

lemma cat_loop_AssertionError:
  "cat_loop self cs sc = Inl AssertionError \<Longrightarrow> \<exists>c \<in> set cs. c \<notin> set (current_view self)"
  by (induction self cs sc rule: cat_loop.induct)
     (auto simp: iter_filtered_view split: if_splits option.splits sum.splits dest: items_loop_error)

lemma cat_loop_single:
  "cat_loop self [c] sc = Inl AssertionError \<longleftrightarrow> c \<notin> set (current_view self)"
  by (auto simp: iter_filtered_view split: option.splits sum.splits dest: items_loop_error)

lemma cat_loop_assertion:
  assumes "substitution_defined self"
  shows "cat_loop self cs sc = Inl AssertionError \<longleftrightarrow> (\<exists>c \<in> set cs. c \<notin> set (current_view self))"
proof (induction cs arbitrary: sc)
  case Nil
  then show ?case by simp
next
  case (Cons c cs)
  show ?case
  proof (cases "c \<in> set (current_view self)")
    case True
    from cat_loop_step [OF assms True, of cs sc]
    obtain sc' where "cat_loop self (c # cs) sc = cat_loop self cs sc'" by blast
    with Cons.IH [of sc'] True show ?thesis by simp
  next
    case False
    then show ?thesis by (simp add: iter_filtered_view)
  qed
qed

text \<open>
  Claim C9, as the code has it. For a single requested name \<^verbatim>\<open>get_sub_categories\<close> raises
  \<^verbatim>\<open>AssertionError\<close> if and only if the name is not in the current view. Where the
  substitution is defined, the same holds for a list of names: the call raises
  \<^verbatim>\<open>AssertionError\<close> if and only if some requested name is not in the current view, and it
  raises no other error, so it returns a result if and only if all requested names are in
  the current view; and the call without an argument returns. For every registry, an \<^verbatim>\<open>AssertionError\<close> on a list means that some
  requested name is not in the current view; without an argument the call never raises
  \<^verbatim>\<open>AssertionError\<close>; and it never raises the \<^verbatim>\<open>InvalidRequestError\<close> of the specification.
\<close>

theorem get_sub_categories_assertion:
  "(get_sub_categories self (Some (Str c)) = Inl AssertionError \<longleftrightarrow> c \<notin> set (current_view self))
   \<and> (substitution_defined self \<longrightarrow>
        (isl (get_sub_categories self (Some (Str c))) \<longleftrightarrow> c \<notin> set (current_view self)))
   \<and> (substitution_defined self \<longrightarrow>
        (get_sub_categories self (Some (Lst cs)) = Inl AssertionError
           \<longleftrightarrow> (\<exists>c \<in> set cs. c \<notin> set (current_view self))))
   \<and> (substitution_defined self \<longrightarrow>
        (isl (get_sub_categories self (Some (Lst cs)))
           \<longleftrightarrow> (\<exists>c \<in> set cs. c \<notin> set (current_view self))))
   \<and> (substitution_defined self \<longrightarrow> \<not> isl (get_sub_categories self None))
   \<and> (get_sub_categories self (Some (Lst cs)) = Inl AssertionError
        \<longrightarrow> (\<exists>c \<in> set cs. c \<notin> set (current_view self)))
   \<and> get_sub_categories self None \<noteq> Inl AssertionError
   \<and> get_sub_categories self categories \<noteq> Inl InvalidRequestError"
proof -
  have isl_iff: "isl (cat_loop self ns []) \<longleftrightarrow> (\<exists>c \<in> set ns. c \<notin> set (current_view self))"
    if sd: "substitution_defined self" for ns
  proof (cases "\<forall>c \<in> set ns. c \<in> set (current_view self)")
    case True
    from cat_loop_Inr [OF sd True, of "[]"] obtain res where "cat_loop self ns [] = Inr res"
      by blast
    with True show ?thesis by auto
  next
    case False
    then have "cat_loop self ns [] = Inl AssertionError"
      using cat_loop_assertion [OF sd, of ns "[]"] by blast
    with False show ?thesis by auto
  qed
  have 1: "get_sub_categories self (Some (Str c)) = Inl AssertionError \<longleftrightarrow> c \<notin> set (current_view self)"
    unfolding get_sub_categories_def by (simp only: option.case as_list.simps cat_loop_single)
  have 2: "isl (get_sub_categories self (Some (Str c))) \<longleftrightarrow> c \<notin> set (current_view self)"
    if "substitution_defined self"
    using isl_iff [OF that, of "[c]"] by (simp add: get_sub_categories_def)
  have 3: "get_sub_categories self (Some (Lst cs)) = Inl AssertionError
           \<longleftrightarrow> (\<exists>c \<in> set cs. c \<notin> set (current_view self))"
    if "substitution_defined self"
    using cat_loop_assertion [OF that, of cs "[]"] by (simp add: get_sub_categories_def)
  have 4: "isl (get_sub_categories self (Some (Lst cs)))
           \<longleftrightarrow> (\<exists>c \<in> set cs. c \<notin> set (current_view self))"
    if "substitution_defined self"
    using isl_iff [OF that, of cs] by (simp add: get_sub_categories_def)
  have 8: "\<not> isl (get_sub_categories self None)" if "substitution_defined self"
    using isl_iff [OF that, of "current_view self"]
    by (simp add: get_sub_categories_def iter_filtered_view)
  have 5: "\<exists>c \<in> set cs. c \<notin> set (current_view self)"
    if "get_sub_categories self (Some (Lst cs)) = Inl AssertionError"
    using that cat_loop_AssertionError [of self cs "[]"] by (simp add: get_sub_categories_def)
  have 6: "get_sub_categories self None \<noteq> Inl AssertionError"
    using cat_loop_AssertionError [of self "current_view self" "[]"]
    by (auto simp: get_sub_categories_def iter_filtered_view)
  have 7: "get_sub_categories self categories \<noteq> Inl InvalidRequestError"
    unfolding get_sub_categories_def using cat_loop_error by blast
  from 1 2 3 4 8 5 6 7 show ?thesis by (intro conjI impI)
qed

text \<open>
  After the substitution of the example, \<open>cat1\<close> is no longer in the current view: asking
  for it, alone or after \<open>cat2\<close>, raises \<^verbatim>\<open>AssertionError\<close>, and asking for \<open>cat2\<close> and \<open>a\<close>
  returns.
\<close>

theorem get_sub_categories_assertion_witness:
  "substitution_defined (set_cat_to_sub_cat [(''cat1'', ''s'')] example_registry)
   \<and> current_view (set_cat_to_sub_cat [(''cat1'', ''s'')] example_registry) = [''a'', ''b'', ''cat2'']
   \<and> get_sub_categories (set_cat_to_sub_cat [(''cat1'', ''s'')] example_registry)
        (Some (Str ''cat1'')) = Inl AssertionError
   \<and> get_sub_categories (set_cat_to_sub_cat [(''cat1'', ''s'')] example_registry)
        (Some (Lst [''cat2'', ''cat1''])) = Inl AssertionError
   \<and> \<not> isl (get_sub_categories (set_cat_to_sub_cat [(''cat1'', ''s'')] example_registry)
        (Some (Lst [''cat2'', ''a''])))"
proof -
  let ?r = "set_cat_to_sub_cat [(''cat1'', ''s'')] example_registry"
  have sd: "substitution_defined ?r" by code_simp
  have v: "current_view ?r = [''a'', ''b'', ''cat2'']" by code_simp
  note t1 = get_sub_categories_assertion [of ?r "''cat1''" "[''cat2'', ''cat1'']" None]
  note t2 = get_sub_categories_assertion [of ?r "''cat1''" "[''cat2'', ''a'']" None]
  from t1 have 1: "get_sub_categories ?r (Some (Str ''cat1'')) = Inl AssertionError"
    by (simp add: v)
  from t1 sd have 2: "get_sub_categories ?r (Some (Lst [''cat2'', ''cat1''])) = Inl AssertionError"
    by (simp add: v)
  from t2 sd have 3: "\<not> isl (get_sub_categories ?r (Some (Lst [''cat2'', ''a''])))"
    by (simp add: v)
  show ?thesis by (intro conjI sd v 1 2 3)
qed

text \<open>
  The claim as the specification words it fails in both directions of its wording. With a
  mapping that also lists \<open>cat2\<close>, which has no sub-categories, the name \<open>a\<close> is in the
  current view and the call still raises an error, \<^verbatim>\<open>KeyError\<close>; the list \<open>a\<close>, \<open>cat1\<close>
  raises \<^verbatim>\<open>KeyError\<close> too, although \<open>cat1\<close> is not in the current view. And for the name
  \<open>cat1\<close> alone the error is \<^verbatim>\<open>AssertionError\<close>, not \<^verbatim>\<open>InvalidRequestError\<close>.
\<close>

theorem get_sub_categories_error_counterexample:
  "current_view (set_cat_to_sub_cat [(''cat1'', ''s''), (''cat2'', ''t'')] example_registry)
     = [''a'', ''b'', ''cat2'']
   \<and> get_sub_categories (set_cat_to_sub_cat [(''cat1'', ''s''), (''cat2'', ''t'')] example_registry)
        (Some (Str ''a'')) = Inl KeyError
   \<and> get_sub_categories (set_cat_to_sub_cat [(''cat1'', ''s''), (''cat2'', ''t'')] example_registry)
        (Some (Lst [''a'', ''cat1''])) = Inl KeyError
   \<and> get_sub_categories (set_cat_to_sub_cat [(''cat1'', ''s''), (''cat2'', ''t'')] example_registry)
        (Some (Str ''cat1'')) = Inl AssertionError
   \<and> get_sub_categories (set_cat_to_sub_cat [(''cat1'', ''s''), (''cat2'', ''t'')] example_registry)
        (Some (Str ''cat1'')) \<noteq> Inl InvalidRequestError"
  by code_simp

end
